theory Spec2Isabelle
  imports Main "HOL-Library.Multiset" "HOL-Library.Sublist"
begin

section \<open>The daemon of cbdynclusterd (daemon/daemon.go)\<close>

text \<open>
  The file verified here is \<^verbatim>\<open>daemon/daemon.go\<close>: the expiry sweep \<^verbatim>\<open>cleanupClusters\<close>,
  the infrastructure check \<^verbatim>\<open>hasMacvlan0\<close> and the daemon body \<^verbatim>\<open>startDaemon\<close> with its
  two goroutines (the periodic cleanup routine and the signal watcher) and the teardown
  goroutines that every sweep starts.

  The program is concurrent, so it is embedded as a labelled transition function
  \<open>step\<close>: a state holds the program point and the local variables of every goroutine and
  the package-level variables; a label names the goroutine that moves and carries what the
  outside world answers at that point (the result of \<^verbatim>\<open>getAllClusters\<close>, of
  \<^verbatim>\<open>killCluster\<close>, of \<^verbatim>\<open>ListenAndServe\<close>, ...). A run is a list of labels; every
  interleaving of the goroutines and every behaviour of the outside world is some run.
\<close>

subsection \<open>Data\<close>

text \<open>A \<^verbatim>\<open>time.Time\<close> instant, in nanoseconds. \<^verbatim>\<open>t.Before(u)\<close> is \<open>t < u\<close>.\<close>

type_synonym time = int

definition Before :: "time \<Rightarrow> time \<Rightarrow> bool" where
  "Before t u = (t < u)"

text \<open>
  A \<^verbatim>\<open>time.Duration\<close> is a signed 64-bit count of nanoseconds. \<^verbatim>\<open>t.Sub(u)\<close> is
  \<open>t - u\<close> when that is a \<^verbatim>\<open>Duration\<close>, and the minimum or the maximum \<^verbatim>\<open>Duration\<close>
  otherwise. \<^verbatim>\<open>d.Round(m)\<close> rounds \<open>d\<close> to the nearest multiple of \<open>m\<close>, halfway values
  away from zero, again cut at the minimum and the maximum; it is \<open>d\<close> when \<open>m \<le> 0\<close>.
\<close>

type_synonym Duration = int

definition minDuration :: Duration where
  "minDuration = - (2 ^ 63)"

definition maxDuration :: Duration where
  "maxDuration = 2 ^ 63 - 1"

definition Second :: Duration where
  "Second = 1000000000"

definition Sub :: "time \<Rightarrow> time \<Rightarrow> Duration" where
  "Sub t u =
     (if minDuration \<le> t - u \<and> t - u \<le> maxDuration then t - u
      else if Before t u then minDuration
      else maxDuration)"

definition Round :: "Duration \<Rightarrow> Duration \<Rightarrow> Duration" where
  "Round d m =
     (if m \<le> 0 then d
      else if d < 0 then
        (let r = (- d) mod m in
         if r + r < m then d + r
         else if minDuration \<le> d - m + r then d - m + r
         else minDuration)
      else
        (let r = d mod m in
         if r + r < m then d - r
         else if d + m - r \<le> maxDuration then d + m - r
         else maxDuration))"

text \<open>A Go \<^verbatim>\<open>error\<close> value is its message; \<^verbatim>\<open>nil\<close> is \<open>None\<close> of \<open>error option\<close>.\<close>

type_synonym error = string

text \<open>
  Modelled from the spec: the types \<^verbatim>\<open>Cluster\<close> and \<^verbatim>\<open>Node\<close> are declared in another file
  of the package. \<^verbatim>\<open>daemon.go\<close> reads exactly the fields below (lines 204, 205, 238-240).
\<close>

record Node =
  ContainerID :: string
  Name :: string
  InitialServerVersion :: string
  IPv4Address :: string

record Cluster =
  ID :: string
  Owner :: string
  Creator :: string
  Timeout :: time
  Nodes :: "Node list"

text \<open>
  Modelled from the spec: \<^verbatim>\<open>NewContext(parent, identity, isSystem)\<close> is defined in another
  file of the package. The spec's ActorContext is built from a parent context plus an
  identity and a privilege flag and is immutable; the value it returns is kept as the
  three arguments it was built from. \<open>Background\<close> is \<^verbatim>\<open>context.Background()\<close>.
\<close>

datatype Context = Background | NewContext Context string bool

text \<open>\<^verbatim>\<open>http.ErrServerClosed\<close>, what \<^verbatim>\<open>ListenAndServe\<close> returns after \<^verbatim>\<open>Close\<close>.\<close>

definition ErrServerClosed :: error where
  "ErrServerClosed = ''http: Server closed''"

subsection \<open>The sequential pieces of the source\<close>

text \<open>
  \<^verbatim>\<open>hasMacvlan0\<close> (lines 179-192). The argument is what \<^verbatim>\<open>docker.NetworkList\<close> returned:
  an error or the names of the networks. \<open>Inl\<close> is the \<^verbatim>\<open>panic(err)\<close> of line 182.
\<close>

fun hasMacvlan0_loop :: "string list \<Rightarrow> bool" where
  "hasMacvlan0_loop [] = False"
| "hasMacvlan0_loop (network # networks) =
     (if network = ''macvlan0'' then True else hasMacvlan0_loop networks)"

fun hasMacvlan0 :: "error + string list \<Rightarrow> error + bool" where
  "hasMacvlan0 (Inl err) = Inl err"
| "hasMacvlan0 (Inr networks) = Inr (hasMacvlan0_loop networks)"

text \<open>
  The body of the loop of lines 203-207 of \<^verbatim>\<open>cleanupClusters\<close>, for one cluster:
  \<open>now\<close> is what the call \<^verbatim>\<open>time.Now()\<close> of this iteration returns.
\<close>

definition check_timeout :: "Cluster \<Rightarrow> time \<Rightarrow> string list \<Rightarrow> string list" where
  "check_timeout cluster now clustersToKill =
     (if Before (Timeout cluster) now then clustersToKill @ [ID cluster] else clustersToKill)"

text \<open>
  The body of the loop of lines 218-223, for one received value \<open>err\<close>; the result is
  the new \<^verbatim>\<open>killError\<close>.
\<close>

definition drain_one :: "error option \<Rightarrow> error option \<Rightarrow> error option" where
  "drain_one err killError = (if err \<noteq> None \<and> killError = None then err else killError)"

text \<open>The first non-nil error of a sequence of results, in the order of the sequence.\<close>

fun first_error :: "error option list \<Rightarrow> error option" where
  "first_error [] = None"
| "first_error (None # rs) = first_error rs"
| "first_error (Some e # rs) = Some e"

subsection \<open>Program points\<close>

text \<open>The goroutine that runs \<^verbatim>\<open>startDaemon\<close> (lines 246-369).\<close>

datatype main_pc =
    M_OpenMeta          \<comment> \<open>line 248\<close>
  | M_ConnectDocker     \<comment> \<open>line 255\<close>
  | M_HasMacvlan0       \<comment> \<open>line 264\<close>
  | M_NewContext        \<comment> \<open>line 270\<close>
  | M_GoCleanup         \<comment> \<open>lines 272-290\<close>
  | M_GetAndPrint       \<comment> \<open>line 292, at line 232\<close>
  | M_PrintClusters "Cluster list"
      \<comment> \<open>line 292, in the loop of lines 237-242: the clusters still to print\<close>
  | M_GoWatcher         \<comment> \<open>lines 333-347\<close>
  | M_Listen            \<comment> \<open>lines 350-351, before \<^verbatim>\<open>ListenAndServe\<close> listens\<close>
  | M_Serving           \<comment> \<open>line 351, inside \<^verbatim>\<open>ListenAndServe\<close>, accepting\<close>
  | M_SendShutdown      \<comment> \<open>line 356\<close>
  | M_RecvClosed        \<comment> \<open>line 359\<close>
  | M_CloseMeta         \<comment> \<open>lines 362-368\<close>
  | M_Returned          \<comment> \<open>\<^verbatim>\<open>startDaemon\<close> has returned\<close>
  | M_Panicked error    \<comment> \<open>line 182: the process died of \<^verbatim>\<open>panic(err)\<close>\<close>

text \<open>
  The cleanup routine (lines 276-290) and, inlined where it is called at line 285,
  \<^verbatim>\<open>cleanupClusters\<close> (lines 194-229). The arguments are the local variables of
  \<^verbatim>\<open>cleanupClusters\<close> that are live at that point.
\<close>

datatype cleanup_pc =
    C_NotStarted
  | C_Select            \<comment> \<open>line 278: waiting for \<^verbatim>\<open>shutdownSig\<close> or the timer\<close>
  | C_Ack               \<comment> \<open>line 280: sending on \<^verbatim>\<open>cleanupClosedSig\<close>\<close>
  | C_Exited            \<comment> \<open>line 281\<close>
  | C_ListAll           \<comment> \<open>lines 195-197\<close>
  | C_Partition "Cluster list" "string list"
      \<comment> \<open>lines 203-207: the clusters still to visit, \<^verbatim>\<open>clustersToKill\<close>\<close>
  | C_Spawn "string list" "string list"
      \<comment> \<open>lines 211-215: \<^verbatim>\<open>clustersToKill\<close>, the ids the range still has to visit\<close>
  | C_Drain "string list" "string list" "error option"
      \<comment> \<open>lines 218-228: \<^verbatim>\<open>clustersToKill\<close>, what the range still has to visit,
          \<^verbatim>\<open>killError\<close>\<close>

text \<open>The signal watcher (lines 341-347).\<close>

datatype watcher_pc =
    W_NotStarted
  | W_Recv              \<comment> \<open>line 342\<close>
  | W_Close             \<comment> \<open>line 346\<close>
  | W_Exited

text \<open>
  A teardown goroutine (lines 212-214) runs \<^verbatim>\<open>signal <- killCluster(systemCtx, clusterID)\<close>:
  it evaluates the call, then sends the result. It holds the channel it captured (the
  channel's number) and its \<^verbatim>\<open>clusterID\<close>. A goroutine that has sent is gone.
\<close>

datatype task =
    T_Kill nat string
  | T_Send nat string "error option"

text \<open>The handle \<^verbatim>\<open>metaStore\<close>: \<^verbatim>\<open>nil\<close>, open, or closed.\<close>

datatype meta = Meta_Nil | Meta_Open | Meta_Closed

text \<open>One constructor for each \<^verbatim>\<open>log.Printf\<close> of the file, with its arguments.\<close>

datatype logline =
    Log_FailedOpenMeta error          \<comment> \<open>line 250\<close>
  | Log_FailedConnectDocker error     \<comment> \<open>line 257\<close>
  | Log_FailedLocateMacvlan0          \<comment> \<open>line 265\<close>
  | Log_CleaningUp                    \<comment> \<open>line 195\<close>
  | Log_FailedCleanup error           \<comment> \<open>line 287\<close>
  | Log_FailedFetch error             \<comment> \<open>line 234\<close>
  | Log_Clusters                      \<comment> \<open>line 236\<close>
  | Log_Cluster string string string Duration
      \<comment> \<open>line 238: id, owner, creator,
          \<^verbatim>\<open>Timeout.Sub(time.Now()).Round(time.Second)\<close>\<close>
  | Log_Node string string string string   \<comment> \<open>line 240\<close>
  | Log_Empty                         \<comment> \<open>line 343\<close>
  | Log_ReceivedShutdown              \<comment> \<open>line 344\<close>
  | Log_DaemonStarting string         \<comment> \<open>line 350\<close>
  | Log_Error error                   \<comment> \<open>line 352\<close>
  | Log_FailedCloseMeta error         \<comment> \<open>line 364\<close>
  | Log_GracefulShutdown              \<comment> \<open>line 368\<close>

text \<open>
  What an observer outside the daemon sees, in the order it happens: the calls into the
  rest of the package with the context they are given, and the steps of the shutdown.
\<close>

datatype event =
    Ev_NewContext Context               \<comment> \<open>line 270\<close>
  | Ev_ListAll "Context option"         \<comment> \<open>\<^verbatim>\<open>getAllClusters(ctx)\<close>, lines 197 and 232\<close>
  | Ev_Kill "Context option" string     \<comment> \<open>\<^verbatim>\<open>killCluster(ctx, id)\<close>, line 213\<close>
  | Ev_ListenerOpened                   \<comment> \<open>\<^verbatim>\<open>ListenAndServe\<close> is accepting\<close>
  | Ev_ListenerClosed                   \<comment> \<open>\<^verbatim>\<open>restServer.Close()\<close>, line 346\<close>
  | Ev_ListenReturned                   \<comment> \<open>\<^verbatim>\<open>ListenAndServe\<close> returned, line 351\<close>
  | Ev_ShutdownSent                     \<comment> \<open>line 356 went through\<close>
  | Ev_AckReceived                      \<comment> \<open>line 359 went through\<close>
  | Ev_RegistryClosed                   \<comment> \<open>\<^verbatim>\<open>metaStore.Close()\<close>, line 362\<close>
  | Ev_SweepReturned "error option"     \<comment> \<open>\<^verbatim>\<open>cleanupClusters\<close> returned, line 285\<close>

subsection \<open>States\<close>

text \<open>
  The fields from \<open>snapshot\<close> on are history variables: no step reads them. For the
  current sweep (or the last one, between sweeps), each in the order it happened:
  \<open>snapshot\<close> is what \<^verbatim>\<open>getAllClusters\<close> returned at line 197, \<open>samples\<close> the values
  \<^verbatim>\<open>time.Now()\<close> returned at line 204, \<open>launched\<close> the ids a teardown goroutine was
  started for at line 212, \<open>killed\<close> the ids \<^verbatim>\<open>killCluster\<close> was called with at line 213,
  \<open>returned\<close> what these calls returned,
  \<open>drained\<close> the values received at line 219.
\<close>

record state =
  mainpc :: main_pc
  cleanup :: cleanup_pc
  watcher :: watcher_pc
  tasks :: "task list"              \<comment> \<open>the live teardown goroutines\<close>
  systemCtx :: "Context option"     \<comment> \<open>line 29; \<open>None\<close> is the nil interface\<close>
  metaStore :: meta                 \<comment> \<open>line 28\<close>
  docker :: bool                    \<comment> \<open>line 27: set by \<^verbatim>\<open>connectDocker\<close>\<close>
  now :: time                       \<comment> \<open>the wall clock, what \<^verbatim>\<open>time.Now()\<close> returns\<close>
  sig_id :: nat                     \<comment> \<open>line 209: which channel \<^verbatim>\<open>signal\<close> is\<close>
  sig_cap :: nat                    \<comment> \<open>its capacity\<close>
  sig_buf :: "error option list"    \<comment> \<open>its buffered values\<close>
  srv_listening :: bool             \<comment> \<open>\<^verbatim>\<open>restServer\<close> has an open listener\<close>
  srv_closed :: bool                \<comment> \<open>\<^verbatim>\<open>restServer.Close()\<close> has been called\<close>
  notified :: bool                  \<comment> \<open>line 340: \<^verbatim>\<open>signal.Notify(c, os.Interrupt)\<close>\<close>
  c_pending :: bool                 \<comment> \<open>line 339: the channel \<^verbatim>\<open>c\<close> (capacity 1) is full\<close>
  snapshot :: "Cluster list"
  samples :: "time list"
  launched :: "string list"
  killed :: "string list"
  returned :: "error option list"
  drained :: "error option list"
  logs :: "logline list"
  events :: "event list"

definition init :: state where
  "init = \<lparr> mainpc = M_OpenMeta, cleanup = C_NotStarted, watcher = W_NotStarted,
     tasks = [], systemCtx = None, metaStore = Meta_Nil, docker = False, now = 0,
     sig_id = 0, sig_cap = 0, sig_buf = [], srv_listening = False, srv_closed = False,
     notified = False, c_pending = False, snapshot = [], samples = [], launched = [],
     killed = [], returned = [], drained = [], logs = [], events = [] \<rparr>"

definition log_printf :: "logline \<Rightarrow> state \<Rightarrow> state" where
  "log_printf l s = s\<lparr> logs := logs s @ [l] \<rparr>"

definition emit :: "event \<Rightarrow> state \<Rightarrow> state" where
  "emit e s = s\<lparr> events := events s @ [e] \<rparr>"

text \<open>The process is alive: once \<^verbatim>\<open>startDaemon\<close> returns or panics, nothing runs.\<close>

fun alive_pc :: "main_pc \<Rightarrow> bool" where
  "alive_pc M_Returned = False"
| "alive_pc (M_Panicked err) = False"
| "alive_pc pc = True"

definition alive :: "state \<Rightarrow> bool" where
  "alive s = alive_pc (mainpc s)"

text \<open>The goroutine at position \<open>i\<close> of \<open>tasks\<close> ends.\<close>

definition delete_at :: "nat \<Rightarrow> 'a list \<Rightarrow> 'a list" where
  "delete_at i xs = take i xs @ drop (Suc i) xs"

text \<open>
  The log lines of \<^verbatim>\<open>getAndPrintClusters\<close> for one cluster (lines 238-241); \<open>t\<close> is what
  the call \<^verbatim>\<open>time.Now()\<close> of this iteration returns.
\<close>

definition print_cluster :: "time \<Rightarrow> Cluster \<Rightarrow> logline list" where
  "print_cluster t cluster =
     Log_Cluster (ID cluster) (Owner cluster) (Creator cluster)
       (Round (Sub (Timeout cluster) t) Second)
     # map (\<lambda>node. Log_Node (ContainerID node) (Name node) (InitialServerVersion node)
              (IPv4Address node)) (Nodes cluster)"

subsection \<open>Labels\<close>

text \<open>
  One label for each atomic action of a goroutine, with what the outside world answers
  there. A label with an index \<open>i\<close> is an action of the teardown goroutine at position
  \<open>i\<close> of \<open>tasks\<close>.
\<close>

datatype label =
    L_OpenMeta "error option"           \<comment> \<open>line 248, with the result of \<^verbatim>\<open>openMeta\<close>\<close>
  | L_ConnectDocker "error option"      \<comment> \<open>line 255, with the result of \<^verbatim>\<open>connectDocker\<close>\<close>
  | L_HasMacvlan0 "error + string list" \<comment> \<open>line 264, with the result of \<^verbatim>\<open>NetworkList\<close>\<close>
  | L_NewContext                        \<comment> \<open>line 270\<close>
  | L_GoCleanup                         \<comment> \<open>lines 272-276\<close>
  | L_GetAndPrint "error + Cluster list"
      \<comment> \<open>line 292: lines 232-236, with the result of \<^verbatim>\<open>getAllClusters\<close>\<close>
  | L_PrintCluster                      \<comment> \<open>line 292: lines 237-242, one iteration\<close>
  | L_PrintDone                         \<comment> \<open>line 292: the loop of line 237 ends\<close>
  | L_GoWatcher                         \<comment> \<open>lines 333-341\<close>
  | L_ListenFails error                 \<comment> \<open>lines 350-353: \<^verbatim>\<open>ListenAndServe\<close> returns at once\<close>
  | L_Listens                           \<comment> \<open>lines 350-351: \<^verbatim>\<open>ListenAndServe\<close> starts accepting\<close>
  | L_ServeReturns error                \<comment> \<open>lines 351-353: \<^verbatim>\<open>ListenAndServe\<close> returns\<close>
  | L_SendShutdown                      \<comment> \<open>line 356 with line 279\<close>
  | L_AckClosed                         \<comment> \<open>line 280 with line 359\<close>
  | L_CloseMeta "error option"          \<comment> \<open>lines 362-368, with the result of \<^verbatim>\<open>Close\<close>\<close>
  | L_Interrupt                         \<comment> \<open>the process receives \<^verbatim>\<open>os.Interrupt\<close>\<close>
  | L_WatcherRecv                       \<comment> \<open>lines 342-344\<close>
  | L_WatcherClose                      \<comment> \<open>line 346\<close>
  | L_TimerFires                        \<comment> \<open>line 282\<close>
  | L_ListAll "error + Cluster list"    \<comment> \<open>lines 195-200, with the result of \<^verbatim>\<open>getAllClusters\<close>\<close>
  | L_CheckTimeout                      \<comment> \<open>lines 203-207, one iteration\<close>
  | L_MakeSignal                        \<comment> \<open>line 209\<close>
  | L_GoKill                            \<comment> \<open>lines 211-215, one iteration\<close>
  | L_BeginDrain                        \<comment> \<open>line 217\<close>
  | L_KillReturns nat "error option"    \<comment> \<open>line 213, with the result of \<^verbatim>\<open>killCluster\<close>\<close>
  | L_SendBuffered nat                  \<comment> \<open>line 213: a send into a free buffer slot\<close>
  | L_Recv nat                          \<comment> \<open>line 213 with line 219: a send meets the receive\<close>
  | L_RecvBuffered                      \<comment> \<open>line 219: a receive from the buffer\<close>
  | L_SweepReturns                      \<comment> \<open>lines 224-228 and 286-288\<close>
  | L_Tick time                         \<comment> \<open>the wall clock moves\<close>

subsection \<open>The transition function\<close>

text \<open>
  \<open>step l s\<close> is \<open>None\<close> when the action \<open>l\<close> cannot happen in \<open>s\<close> (the goroutine is
  elsewhere, or it is blocked on a channel).

  Channels. \<^verbatim>\<open>shutdownSig\<close> and \<^verbatim>\<open>cleanupClosedSig\<close> are made without a capacity
  (lines 272-273), so a send and its receive happen together: \<open>L_SendShutdown\<close> needs the
  main goroutine at line 356 and the cleanup routine at its \<^verbatim>\<open>select\<close>, \<open>L_AckClosed\<close> needs
  the cleanup routine at line 280 and the main goroutine at line 359. The channel
  \<^verbatim>\<open>signal\<close> of a sweep is kept with its capacity and buffer: a send goes into a free slot
  when there is one (\<open>L_SendBuffered\<close>), a receive takes the oldest buffered value
  (\<open>L_RecvBuffered\<close>), and with an empty buffer a sender hands its value to the receiver
  (\<open>L_Recv\<close>).

  \<^verbatim>\<open>ListenAndServe\<close> returns \<^verbatim>\<open>ErrServerClosed\<close> once \<^verbatim>\<open>Close\<close> has been called, and otherwise
  the error of listening or accepting.
\<close>

fun step :: "label \<Rightarrow> state \<Rightarrow> state option" where
  "step (L_OpenMeta r) s =
     (if alive s \<and> mainpc s = M_OpenMeta then
        (case r of
           Some err \<Rightarrow> Some (log_printf (Log_FailedOpenMeta err) (s\<lparr> mainpc := M_Returned \<rparr>))
         | None \<Rightarrow> Some (s\<lparr> metaStore := Meta_Open, mainpc := M_ConnectDocker \<rparr>))
      else None)"
| "step (L_ConnectDocker r) s =
     (if alive s \<and> mainpc s = M_ConnectDocker then
        (case r of
           Some err \<Rightarrow>
             Some (log_printf (Log_FailedConnectDocker err) (s\<lparr> mainpc := M_Returned \<rparr>))
         | None \<Rightarrow> Some (s\<lparr> docker := True, mainpc := M_HasMacvlan0 \<rparr>))
      else None)"
| "step (L_HasMacvlan0 r) s =
     (if alive s \<and> mainpc s = M_HasMacvlan0 then
        (case hasMacvlan0 r of
           Inl err \<Rightarrow> Some (s\<lparr> mainpc := M_Panicked err \<rparr>)
         | Inr found \<Rightarrow>
             if \<not> found
             then Some (log_printf Log_FailedLocateMacvlan0 (s\<lparr> mainpc := M_Returned \<rparr>))
             else Some (s\<lparr> mainpc := M_NewContext \<rparr>))
      else None)"
| "step L_NewContext s =
     (if alive s \<and> mainpc s = M_NewContext then
        Some (emit (Ev_NewContext (NewContext Background ''system'' True))
               (s\<lparr> systemCtx := Some (NewContext Background ''system'' True),
                   mainpc := M_GoCleanup \<rparr>))
      else None)"
| "step L_GoCleanup s =
     (if alive s \<and> mainpc s = M_GoCleanup then
        Some (s\<lparr> cleanup := C_Select, mainpc := M_GetAndPrint \<rparr>)
      else None)"
| "step (L_GetAndPrint r) s =
     (if alive s \<and> mainpc s = M_GetAndPrint then
        (case r of
           Inl err \<Rightarrow>
             Some (log_printf (Log_FailedFetch err)
                    (emit (Ev_ListAll (systemCtx s)) (s\<lparr> mainpc := M_GoWatcher \<rparr>)))
         | Inr clusters \<Rightarrow>
             Some (log_printf Log_Clusters
                    (emit (Ev_ListAll (systemCtx s))
                      (s\<lparr> mainpc := M_PrintClusters clusters \<rparr>))))
      else None)"
| "step L_PrintCluster s =
     (if alive s then
        (case mainpc s of
           M_PrintClusters (cluster # clusters) \<Rightarrow>
             Some (s\<lparr> logs := logs s @ print_cluster (now s) cluster,
                      mainpc := M_PrintClusters clusters \<rparr>)
         | _ \<Rightarrow> None)
      else None)"
| "step L_PrintDone s =
     (if alive s \<and> mainpc s = M_PrintClusters [] then
        Some (s\<lparr> mainpc := M_GoWatcher \<rparr>)
      else None)"
| "step L_GoWatcher s =
     (if alive s \<and> mainpc s = M_GoWatcher then
        Some (s\<lparr> notified := True, watcher := W_Recv, mainpc := M_Listen \<rparr>)
      else None)"
| "step (L_ListenFails err) s =
     (if alive s \<and> mainpc s = M_Listen \<and> (srv_closed s \<longrightarrow> err = ErrServerClosed) then
        Some (emit Ev_ListenReturned
               (log_printf (Log_Error err)
                 (log_printf (Log_DaemonStarting '':19923'')
                   (s\<lparr> mainpc := M_SendShutdown \<rparr>))))
      else None)"
| "step L_Listens s =
     (if alive s \<and> mainpc s = M_Listen \<and> \<not> srv_closed s then
        Some (emit Ev_ListenerOpened
               (log_printf (Log_DaemonStarting '':19923'')
                 (s\<lparr> srv_listening := True, mainpc := M_Serving \<rparr>)))
      else None)"
| "step (L_ServeReturns err) s =
     (if alive s \<and> mainpc s = M_Serving \<and> (srv_closed s \<longrightarrow> err = ErrServerClosed) then
        Some (emit Ev_ListenReturned
               (log_printf (Log_Error err)
                 (s\<lparr> srv_listening := False, mainpc := M_SendShutdown \<rparr>)))
      else None)"
| "step L_SendShutdown s =
     (if alive s \<and> mainpc s = M_SendShutdown \<and> cleanup s = C_Select then
        Some (emit Ev_ShutdownSent (s\<lparr> mainpc := M_RecvClosed, cleanup := C_Ack \<rparr>))
      else None)"
| "step L_AckClosed s =
     (if alive s \<and> mainpc s = M_RecvClosed \<and> cleanup s = C_Ack then
        Some (emit Ev_AckReceived (s\<lparr> mainpc := M_CloseMeta, cleanup := C_Exited \<rparr>))
      else None)"
| "step (L_CloseMeta r) s =
     (if alive s \<and> mainpc s = M_CloseMeta then
        Some (emit Ev_RegistryClosed
               (s\<lparr> metaStore := Meta_Closed,
                   logs := logs s @
                     (case r of Some err \<Rightarrow> [Log_FailedCloseMeta err] | None \<Rightarrow> [])
                     @ [Log_GracefulShutdown],
                   mainpc := M_Returned \<rparr>))
      else None)"
| "step L_Interrupt s =
     (if alive s \<and> notified s then Some (s\<lparr> c_pending := True \<rparr>) else None)"
| "step L_WatcherRecv s =
     (if alive s \<and> watcher s = W_Recv \<and> c_pending s then
        Some (log_printf Log_ReceivedShutdown
               (log_printf Log_Empty (s\<lparr> c_pending := False, watcher := W_Close \<rparr>)))
      else None)"
| "step L_WatcherClose s =
     (if alive s \<and> watcher s = W_Close then
        Some (emit Ev_ListenerClosed
               (s\<lparr> srv_closed := True, srv_listening := False, watcher := W_Exited \<rparr>))
      else None)"
| "step L_TimerFires s =
     (if alive s \<and> cleanup s = C_Select then
        Some (s\<lparr> cleanup := C_ListAll, snapshot := [], samples := [], launched := [],
                 killed := [], returned := [], drained := [] \<rparr>)
      else None)"
| "step (L_ListAll r) s =
     (if alive s \<and> cleanup s = C_ListAll then
        (case r of
           Inl err \<Rightarrow>
             Some (emit (Ev_SweepReturned (Some err))
                    (log_printf (Log_FailedCleanup err)
                      (emit (Ev_ListAll (systemCtx s))
                        (log_printf Log_CleaningUp (s\<lparr> cleanup := C_Select \<rparr>)))))
         | Inr clusters \<Rightarrow>
             Some (emit (Ev_ListAll (systemCtx s))
                    (log_printf Log_CleaningUp
                      (s\<lparr> cleanup := C_Partition clusters [], snapshot := clusters \<rparr>))))
      else None)"
| "step L_CheckTimeout s =
     (if alive s then
        (case cleanup s of
           C_Partition (cluster # clusters) clustersToKill \<Rightarrow>
             Some (s\<lparr> cleanup :=
                        C_Partition clusters (check_timeout cluster (now s) clustersToKill),
                      samples := samples s @ [now s] \<rparr>)
         | _ \<Rightarrow> None)
      else None)"
| "step L_MakeSignal s =
     (if alive s then
        (case cleanup s of
           C_Partition [] clustersToKill \<Rightarrow>
             Some (s\<lparr> sig_id := Suc (sig_id s), sig_cap := 0, sig_buf := [],
                      cleanup := C_Spawn clustersToKill clustersToKill \<rparr>)
         | _ \<Rightarrow> None)
      else None)"
| "step L_GoKill s =
     (if alive s then
        (case cleanup s of
           C_Spawn clustersToKill (clusterID # rest) \<Rightarrow>
             Some (s\<lparr> tasks := tasks s @ [T_Kill (sig_id s) clusterID],
                      launched := launched s @ [clusterID],
                      cleanup := C_Spawn clustersToKill rest \<rparr>)
         | _ \<Rightarrow> None)
      else None)"
| "step L_BeginDrain s =
     (if alive s then
        (case cleanup s of
           C_Spawn clustersToKill [] \<Rightarrow>
             Some (s\<lparr> cleanup := C_Drain clustersToKill clustersToKill None \<rparr>)
         | _ \<Rightarrow> None)
      else None)"
| "step (L_KillReturns i r) s =
     (if alive s \<and> i < length (tasks s) then
        (case tasks s ! i of
           T_Kill ch clusterID \<Rightarrow>
             Some (emit (Ev_Kill (systemCtx s) clusterID)
                    (s\<lparr> tasks := (tasks s)[i := T_Send ch clusterID r],
                        killed := killed s @ [clusterID],
                        returned := returned s @ [r] \<rparr>))
         | _ \<Rightarrow> None)
      else None)"
| "step (L_SendBuffered i) s =
     (if alive s \<and> i < length (tasks s) then
        (case tasks s ! i of
           T_Send ch clusterID r \<Rightarrow>
             if ch = sig_id s \<and> length (sig_buf s) < sig_cap s
             then Some (s\<lparr> sig_buf := sig_buf s @ [r], tasks := delete_at i (tasks s) \<rparr>)
             else None
         | _ \<Rightarrow> None)
      else None)"
| "step (L_Recv i) s =
     (if alive s \<and> i < length (tasks s) then
        (case (cleanup s, tasks s ! i) of
           (C_Drain clustersToKill (x # rest) killError, T_Send ch clusterID err) \<Rightarrow>
             if ch = sig_id s \<and> sig_buf s = []
             then Some (s\<lparr> tasks := delete_at i (tasks s),
                           drained := drained s @ [err],
                           cleanup := C_Drain clustersToKill rest (drain_one err killError) \<rparr>)
             else None
         | _ \<Rightarrow> None)
      else None)"
| "step L_RecvBuffered s =
     (if alive s then
        (case (cleanup s, sig_buf s) of
           (C_Drain clustersToKill (x # rest) killError, err # buf) \<Rightarrow>
             Some (s\<lparr> sig_buf := buf,
                      drained := drained s @ [err],
                      cleanup := C_Drain clustersToKill rest (drain_one err killError) \<rparr>)
         | _ \<Rightarrow> None)
      else None)"
| "step L_SweepReturns s =
     (if alive s then
        (case cleanup s of
           C_Drain clustersToKill [] killError \<Rightarrow>
             Some (emit (Ev_SweepReturned killError)
                    (s\<lparr> logs := logs s @
                          (case killError of Some err \<Rightarrow> [Log_FailedCleanup err] | None \<Rightarrow> []),
                        cleanup := C_Select \<rparr>))
         | _ \<Rightarrow> None)
      else None)"
| "step (L_Tick t) s = (if alive s then Some (s\<lparr> now := t \<rparr>) else None)"

text \<open>A run: the labels are taken in order; \<open>None\<close> when one of them cannot happen.\<close>

fun run :: "label list \<Rightarrow> state \<Rightarrow> state option" where
  "run [] s = Some s"
| "run (l # ls) s = (case step l s of None \<Rightarrow> None | Some s' \<Rightarrow> run ls s')"

text \<open>What an observer reads off the state after the run \<open>ls\<close> of the daemon.\<close>

definition observe :: "(state \<Rightarrow> 'a) \<Rightarrow> label list \<Rightarrow> 'a option" where
  "observe f ls = map_option f (run ls init)"

subsection \<open>Notions the properties are stated with\<close>

text \<open>The context built at line 270.\<close>

definition system_context :: Context where
  "system_context = NewContext Background ''system'' True"

text \<open>
  The ids of the clusters whose \<^verbatim>\<open>Timeout\<close> is strictly before the time sample paired
  with them: the \<open>k\<close>-th cluster is compared with the \<open>k\<close>-th sample.
\<close>

fun selected :: "Cluster list \<Rightarrow> time list \<Rightarrow> string list" where
  "selected (c # cs) (t # ts) =
     (if Timeout c < t then ID c # selected cs ts else selected cs ts)"
| "selected cs ts = []"

text \<open>The ids of the clusters whose \<^verbatim>\<open>Timeout\<close> is strictly before the one instant \<open>t\<close>.\<close>

definition expired_at :: "time \<Rightarrow> Cluster list \<Rightarrow> string list" where
  "expired_at t cs = map ID (filter (\<lambda>c. Timeout c < t) cs)"

text \<open>The channel a teardown goroutine sends on.\<close>

fun task_chan :: "task \<Rightarrow> nat" where
  "task_chan (T_Kill ch clusterID) = ch"
| "task_chan (T_Send ch clusterID r) = ch"

text \<open>The ids of the teardown goroutines that have not called \<^verbatim>\<open>killCluster\<close> yet.\<close>

fun kill_pending :: "task list \<Rightarrow> string list" where
  "kill_pending [] = []"
| "kill_pending (T_Kill ch clusterID # ts) = clusterID # kill_pending ts"
| "kill_pending (T_Send ch clusterID r # ts) = kill_pending ts"

text \<open>
  The values that the teardown goroutines hold and have not sent yet: what their calls
  of \<^verbatim>\<open>killCluster\<close> returned.
\<close>

fun sent_values :: "task list \<Rightarrow> error option list" where
  "sent_values [] = []"
| "sent_values (T_Kill ch clusterID # ts) = sent_values ts"
| "sent_values (T_Send ch clusterID r # ts) = r # sent_values ts"

text \<open>
  The four steps of the shutdown that the main goroutine itself takes, and the order
  the source has them in (lines 351, 356, 359, 362).
\<close>

fun shutdown_event :: "event \<Rightarrow> bool" where
  "shutdown_event Ev_ListenReturned = True"
| "shutdown_event Ev_ShutdownSent = True"
| "shutdown_event Ev_AckReceived = True"
| "shutdown_event Ev_RegistryClosed = True"
| "shutdown_event e = False"

definition shutdown_sequence :: "event list" where
  "shutdown_sequence = [Ev_ListenReturned, Ev_ShutdownSent, Ev_AckReceived, Ev_RegistryClosed]"

text \<open>
  An event that carries a context carries \<open>ctx\<close>: a call into the cluster service is
  made under it, and it is the context that line 270 builds. Other events pass.
\<close>

fun uses_context :: "Context \<Rightarrow> event \<Rightarrow> bool" where
  "uses_context ctx (Ev_NewContext c) = (c = ctx)"
| "uses_context ctx (Ev_ListAll c) = (c = Some ctx)"
| "uses_context ctx (Ev_Kill c clusterID) = (c = Some ctx)"
| "uses_context ctx e = True"

fun is_NewContext :: "event \<Rightarrow> bool" where
  "is_NewContext (Ev_NewContext c) = True"
| "is_NewContext e = False"

text \<open>The cleanup routine is inside \<^verbatim>\<open>cleanupClusters\<close>.\<close>

fun in_sweep :: "cleanup_pc \<Rightarrow> bool" where
  "in_sweep C_ListAll = True"
| "in_sweep (C_Partition clusters clustersToKill) = True"
| "in_sweep (C_Spawn clustersToKill rest) = True"
| "in_sweep (C_Drain clustersToKill rest killError) = True"
| "in_sweep pc = False"

text \<open>The sweep is in the loop of lines 203-207.\<close>

fun partitioning :: "cleanup_pc \<Rightarrow> bool" where
  "partitioning (C_Partition clusters clustersToKill) = True"
| "partitioning pc = False"

text \<open>The main goroutine has not reached line 270 yet.\<close>

fun before_context :: "main_pc \<Rightarrow> bool" where
  "before_context M_OpenMeta = True"
| "before_context M_ConnectDocker = True"
| "before_context M_HasMacvlan0 = True"
| "before_context M_NewContext = True"
| "before_context pc = False"

text \<open>The main goroutine has not reached the point where the listener opens.\<close>

fun before_listening :: "main_pc \<Rightarrow> bool" where
  "before_listening M_OpenMeta = True"
| "before_listening M_ConnectDocker = True"
| "before_listening M_HasMacvlan0 = True"
| "before_listening M_NewContext = True"
| "before_listening M_GoCleanup = True"
| "before_listening M_GetAndPrint = True"
| "before_listening (M_PrintClusters clusters) = True"
| "before_listening M_GoWatcher = True"
| "before_listening M_Listen = True"
| "before_listening pc = False"

text \<open>The main goroutine is in the handshake of lines 356-368.\<close>

fun in_handshake :: "main_pc \<Rightarrow> bool" where
  "in_handshake M_SendShutdown = True"
| "in_handshake M_RecvClosed = True"
| "in_handshake M_CloseMeta = True"
| "in_handshake pc = False"

text \<open>
  How many steps the current sweep needs at most to return, when every call of
  \<^verbatim>\<open>killCluster\<close> returns: a teardown goroutine that has not called yet needs two steps, one
  that holds its value needs one.
\<close>

fun task_work :: "task \<Rightarrow> nat" where
  "task_work (T_Kill ch clusterID) = 2"
| "task_work (T_Send ch clusterID r) = 1"

fun sweep_work :: "cleanup_pc \<Rightarrow> task list \<Rightarrow> nat" where
  "sweep_work C_ListAll ts = 1"
| "sweep_work (C_Partition clusters clustersToKill) ts =
     4 * length clusters + 3 * length clustersToKill + 3"
| "sweep_work (C_Spawn clustersToKill rest) ts =
     3 * length rest + sum_list (map task_work ts) + 2"
| "sweep_work (C_Drain clustersToKill rest killError) ts = sum_list (map task_work ts) + 1"
| "sweep_work pc ts = 0"

fun serving :: "main_pc \<Rightarrow> bool" where
  "serving M_Serving = True"
| "serving pc = False"

subsection \<open>Invariants\<close>

text \<open>
  Where the cleanup routine is, as a function of where the main goroutine is: not
  started before line 276, in its loop until the main goroutine has sent on
  \<^verbatim>\<open>shutdownSig\<close>, at line 280 until the main goroutine has received, gone after.
\<close>

datatype phase = Ph_NotStarted | Ph_Running | Ph_Ack | Ph_Exited

fun main_phase :: "main_pc \<Rightarrow> phase" where
  "main_phase M_OpenMeta = Ph_NotStarted"
| "main_phase M_ConnectDocker = Ph_NotStarted"
| "main_phase M_HasMacvlan0 = Ph_NotStarted"
| "main_phase M_NewContext = Ph_NotStarted"
| "main_phase M_GoCleanup = Ph_NotStarted"
| "main_phase M_RecvClosed = Ph_Ack"
| "main_phase M_CloseMeta = Ph_Exited"
| "main_phase M_Returned = Ph_Exited"
| "main_phase (M_Panicked err) = Ph_NotStarted"
| "main_phase pc = Ph_Running"

fun cleanup_phase :: "cleanup_pc \<Rightarrow> phase" where
  "cleanup_phase C_NotStarted = Ph_NotStarted"
| "cleanup_phase C_Ack = Ph_Ack"
| "cleanup_phase C_Exited = Ph_Exited"
| "cleanup_phase pc = Ph_Running"

definition pc_inv :: "state \<Rightarrow> bool" where
  "pc_inv s =
     ((alive_pc (mainpc s) \<longrightarrow> cleanup_phase (cleanup s) = main_phase (mainpc s)) \<and>
      (\<not> alive_pc (mainpc s) \<longrightarrow> cleanup s = C_NotStarted \<or> cleanup s = C_Exited) \<and>
      (before_context (mainpc s) \<or> mainpc s = M_GoCleanup \<longrightarrow>
         watcher s = W_NotStarted \<and> \<not> notified s) \<and>
      (cleanup s \<noteq> C_NotStarted \<longrightarrow> \<not> before_context (mainpc s)) \<and>
      (srv_listening s \<longrightarrow> serving (mainpc s)))"

text \<open>The channel \<^verbatim>\<open>signal\<close> has no buffer.\<close>

definition chan_inv :: "state \<Rightarrow> bool" where
  "chan_inv s = (sig_cap s = 0 \<and> sig_buf s = [])"

text \<open>
  The teardown goroutines: all of them send on the current sweep's channel; every
  goroutine started in this sweep is alive or has had its value received; every one has
  called \<^verbatim>\<open>killCluster\<close> or is about to; and what the loops of lines 211-223 have done so
  far.
\<close>

definition tasks_inv :: "state \<Rightarrow> bool" where
  "tasks_inv s =
     ((\<forall>t \<in> set (tasks s). task_chan t = sig_id s) \<and>
      length (tasks s) + length (drained s) = length (launched s) \<and>
      mset (killed s) + mset (kill_pending (tasks s)) = mset (launched s) \<and>
      (\<not> in_sweep (cleanup s) \<longrightarrow> tasks s = []) \<and>
      (cleanup s = C_ListAll \<longrightarrow> launched s = []) \<and>
      (\<forall>clusters clustersToKill.
         cleanup s = C_Partition clusters clustersToKill \<longrightarrow> launched s = []) \<and>
      (\<forall>clustersToKill rest.
         cleanup s = C_Spawn clustersToKill rest \<longrightarrow>
           clustersToKill = launched s @ rest \<and> drained s = []) \<and>
      (\<forall>clustersToKill rest killError.
         cleanup s = C_Drain clustersToKill rest killError \<longrightarrow>
           launched s = clustersToKill \<and> killError = first_error (drained s) \<and>
           length (drained s) + length rest = length clustersToKill))"

text \<open>
  The values received in this sweep and the values still held by a sender are, together,
  what the calls of \<^verbatim>\<open>killCluster\<close> of this sweep returned, one value for each call.
\<close>

definition results_inv :: "state \<Rightarrow> bool" where
  "results_inv s =
     (mset (drained s) + mset (sent_values (tasks s)) = mset (returned s) \<and>
      length (returned s) = length (killed s))"

text \<open>What the loop of lines 203-207 has selected, in terms of the time samples it took.\<close>

definition select_inv :: "state \<Rightarrow> bool" where
  "select_inv s =
     (length (samples s) \<le> length (snapshot s) \<and>
      (\<forall>clusters clustersToKill.
         cleanup s = C_Partition clusters clustersToKill \<longrightarrow>
           clusters = drop (length (samples s)) (snapshot s) \<and>
           clustersToKill = selected (snapshot s) (samples s)) \<and>
      (\<forall>clustersToKill rest.
         cleanup s = C_Spawn clustersToKill rest \<longrightarrow>
           clustersToKill = selected (snapshot s) (samples s)) \<and>
      (\<forall>clustersToKill rest killError.
         cleanup s = C_Drain clustersToKill rest killError \<longrightarrow>
           clustersToKill = selected (snapshot s) (samples s)) \<and>
      (cleanup s = C_ListAll \<longrightarrow> snapshot s = [] \<and> samples s = []) \<and>
      (\<not> partitioning (cleanup s) \<longrightarrow> length (samples s) = length (snapshot s)) \<and>
      (\<not> in_sweep (cleanup s) \<longrightarrow> launched s = selected (snapshot s) (samples s)))"

text \<open>The context: unset before line 270, the system context from then on.\<close>

definition ctx_inv :: "state \<Rightarrow> bool" where
  "ctx_inv s =
     ((before_context (mainpc s) \<longrightarrow> systemCtx s = None \<and> events s = []) \<and>
      (cleanup s \<noteq> C_NotStarted \<longrightarrow> systemCtx s = Some system_context) \<and>
      (mainpc s = M_GoCleanup \<or> mainpc s = M_GetAndPrint \<longrightarrow>
         systemCtx s = Some system_context) \<and>
      list_all (uses_context system_context) (events s) \<and>
      length (filter is_NewContext (events s)) = (if systemCtx s = None then 0 else 1))"

text \<open>How far the shutdown has got, as a function of where the main goroutine is.\<close>

fun shutdown_progress :: "main_pc \<Rightarrow> event list" where
  "shutdown_progress M_SendShutdown = [Ev_ListenReturned]"
| "shutdown_progress M_RecvClosed = [Ev_ListenReturned, Ev_ShutdownSent]"
| "shutdown_progress M_CloseMeta = [Ev_ListenReturned, Ev_ShutdownSent, Ev_AckReceived]"
| "shutdown_progress pc = []"

definition shutdown_inv :: "state \<Rightarrow> bool" where
  "shutdown_inv s =
     ((alive_pc (mainpc s) \<longrightarrow>
         filter shutdown_event (events s) = shutdown_progress (mainpc s) \<and>
         metaStore s = (if mainpc s = M_OpenMeta then Meta_Nil else Meta_Open)) \<and>
      (before_listening (mainpc s) \<longrightarrow> Ev_ListenerOpened \<notin> set (events s)) \<and>
      (\<not> alive_pc (mainpc s) \<longrightarrow>
         filter shutdown_event (events s) = [] \<and> metaStore s \<noteq> Meta_Closed \<or>
         filter shutdown_event (events s) = shutdown_sequence \<and>
         mainpc s = M_Returned \<and> metaStore s = Meta_Closed \<and> cleanup s = C_Exited \<and>
         logs s \<noteq> [] \<and> last (logs s) = Log_GracefulShutdown))"

definition inv :: "state \<Rightarrow> bool" where
  "inv s = (pc_inv s \<and> chan_inv s \<and> tasks_inv s \<and> results_inv s \<and> select_inv s \<and>
            ctx_inv s \<and> shutdown_inv s)"

subsection \<open>Example inputs\<close>

text \<open>Three clusters: two whose \<^verbatim>\<open>Timeout\<close> is the instant 10, one that lives until 600.\<close>

definition cluster_a :: Cluster where
  "cluster_a = \<lparr> ID = ''a'', Owner = ''alice'', Creator = ''alice'', Timeout = 10, Nodes = [] \<rparr>"

definition cluster_b :: Cluster where
  "cluster_b = \<lparr> ID = ''b'', Owner = ''bob'', Creator = ''bob'', Timeout = 10, Nodes = [] \<rparr>"

definition cluster_c :: Cluster where
  "cluster_c = \<lparr> ID = ''c'', Owner = ''alice'', Creator = ''bob'', Timeout = 600, Nodes = [] \<rparr>"

text \<open>The daemon starts without a failure, up to the point where it is about to listen.\<close>

definition startup :: "label list" where
  "startup =
     [L_OpenMeta None, L_ConnectDocker None, L_HasMacvlan0 (Inr [''bridge'', ''macvlan0'']),
      L_NewContext, L_GoCleanup, L_GetAndPrint (Inr []), L_PrintDone, L_GoWatcher]"

text \<open>
  A sweep at the instant 20 over the three clusters, up to the point where both teardown
  goroutines run and the sweep is about to receive.
\<close>

definition sweep_two :: "label list" where
  "sweep_two =
     [L_Tick 20, L_TimerFires, L_ListAll (Inr [cluster_a, cluster_b, cluster_c]),
      L_CheckTimeout, L_CheckTimeout, L_CheckTimeout, L_MakeSignal, L_GoKill, L_GoKill,
      L_BeginDrain]"

text \<open>Both teardowns fail; the one of \<open>''b''\<close> is received first.\<close>

definition drain_two :: "label list" where
  "drain_two =
     [L_KillReturns 0 (Some ''a failed''), L_KillReturns 1 (Some ''b failed''), L_Recv 1,
      L_Recv 0]"

text \<open>
  A sweep over \<open>cluster_a\<close> and \<open>cluster_b\<close> during which the clock moves from 10 to 11
  between the two iterations of the loop of lines 203-207.
\<close>

definition sweep_clock_moves :: "label list" where
  "sweep_clock_moves =
     [L_Tick 10, L_TimerFires, L_ListAll (Inr [cluster_a, cluster_b]), L_CheckTimeout,
      L_Tick 11, L_CheckTimeout, L_MakeSignal]"

text \<open>A sweep at the instant 5, when none of the three clusters has expired.\<close>

definition sweep_none :: "label list" where
  "sweep_none =
     [L_Tick 5, L_TimerFires, L_ListAll (Inr [cluster_a, cluster_b, cluster_c]),
      L_CheckTimeout, L_CheckTimeout, L_CheckTimeout, L_MakeSignal, L_BeginDrain]"

text \<open>
  The listener cannot start; during the shutdown that follows the process is
  interrupted, and the signal watcher closes the server after the cleanup routine has
  acknowledged.
\<close>

definition listen_fails_late_interrupt :: "label list" where
  "listen_fails_late_interrupt =
     [L_ListenFails ''listen tcp :19923: bind: address already in use'', L_SendShutdown,
      L_AckClosed, L_Interrupt, L_WatcherRecv, L_WatcherClose, L_CloseMeta None]"

text \<open>The normal end: an interrupt while serving.\<close>

definition interrupted_while_serving :: "label list" where
  "interrupted_while_serving =
     [L_Listens, L_Interrupt, L_WatcherRecv, L_WatcherClose, L_ServeReturns ErrServerClosed,
      L_SendShutdown, L_AckClosed, L_CloseMeta None]"

text \<open>What unfolds when a run is evaluated.\<close>

lemmas eval_defs =
  init_def alive_def log_printf_def emit_def check_timeout_def Before_def drain_one_def
  delete_at_def ErrServerClosed_def cluster_a_def cluster_b_def cluster_c_def startup_def
  sweep_two_def drain_two_def sweep_clock_moves_def sweep_none_def
  listen_fails_late_interrupt_def interrupted_while_serving_def observe_def

section \<open>Proofs\<close>

subsection \<open>The transition function as a relation\<close>

text \<open>
  For every label, when the step happens and what it leaves: the same content as the
  equations of \<open>step\<close>, in the form the proofs use.
\<close>

lemma step_OpenMeta:
  "step (L_OpenMeta r) s = Some s' \<longleftrightarrow>
     alive s \<and> mainpc s = M_OpenMeta \<and>
     ((\<exists>err. r = Some err \<and>
         s' = s\<lparr> mainpc := M_Returned, logs := logs s @ [Log_FailedOpenMeta err] \<rparr>) \<or>
      (r = None \<and> s' = s\<lparr> metaStore := Meta_Open, mainpc := M_ConnectDocker \<rparr>))"
  by (auto simp: log_printf_def split: option.splits)

lemma step_ConnectDocker:
  "step (L_ConnectDocker r) s = Some s' \<longleftrightarrow>
     alive s \<and> mainpc s = M_ConnectDocker \<and>
     ((\<exists>err. r = Some err \<and>
         s' = s\<lparr> mainpc := M_Returned, logs := logs s @ [Log_FailedConnectDocker err] \<rparr>) \<or>
      (r = None \<and> s' = s\<lparr> docker := True, mainpc := M_HasMacvlan0 \<rparr>))"
  by (auto simp: log_printf_def split: option.splits)

lemma step_HasMacvlan0:
  "step (L_HasMacvlan0 r) s = Some s' \<longleftrightarrow>
     alive s \<and> mainpc s = M_HasMacvlan0 \<and>
     ((\<exists>err. hasMacvlan0 r = Inl err \<and> s' = s\<lparr> mainpc := M_Panicked err \<rparr>) \<or>
      (hasMacvlan0 r = Inr False \<and>
         s' = s\<lparr> mainpc := M_Returned, logs := logs s @ [Log_FailedLocateMacvlan0] \<rparr>) \<or>
      (hasMacvlan0 r = Inr True \<and> s' = s\<lparr> mainpc := M_NewContext \<rparr>))"
  by (auto simp: log_printf_def split: sum.splits)

lemma step_NewContext:
  "step L_NewContext s = Some s' \<longleftrightarrow>
     alive s \<and> mainpc s = M_NewContext \<and>
     s' = s\<lparr> systemCtx := Some (NewContext Background ''system'' True),
             mainpc := M_GoCleanup,
             events := events s @ [Ev_NewContext (NewContext Background ''system'' True)] \<rparr>"
  by (auto simp: emit_def)

lemma step_GoCleanup:
  "step L_GoCleanup s = Some s' \<longleftrightarrow>
     alive s \<and> mainpc s = M_GoCleanup \<and>
     s' = s\<lparr> cleanup := C_Select, mainpc := M_GetAndPrint \<rparr>"
  by auto

lemma step_GetAndPrint:
  "step (L_GetAndPrint r) s = Some s' \<longleftrightarrow>
     alive s \<and> mainpc s = M_GetAndPrint \<and>
     ((\<exists>err. r = Inl err \<and>
         s' = s\<lparr> mainpc := M_GoWatcher, logs := logs s @ [Log_FailedFetch err],
                 events := events s @ [Ev_ListAll (systemCtx s)] \<rparr>) \<or>
      (\<exists>clusters. r = Inr clusters \<and>
         s' = s\<lparr> mainpc := M_PrintClusters clusters, logs := logs s @ [Log_Clusters],
                 events := events s @ [Ev_ListAll (systemCtx s)] \<rparr>))"
  by (auto simp: emit_def log_printf_def split: sum.splits)

lemma step_PrintCluster:
  "step L_PrintCluster s = Some s' \<longleftrightarrow>
     alive s \<and>
     (\<exists>cluster clusters.
        mainpc s = M_PrintClusters (cluster # clusters) \<and>
        s' = s\<lparr> logs := logs s @ print_cluster (now s) cluster,
                mainpc := M_PrintClusters clusters \<rparr>)"
  by (auto split: main_pc.splits list.splits)

lemma step_PrintDone:
  "step L_PrintDone s = Some s' \<longleftrightarrow>
     alive s \<and> mainpc s = M_PrintClusters [] \<and> s' = s\<lparr> mainpc := M_GoWatcher \<rparr>"
  by auto

lemma step_GoWatcher:
  "step L_GoWatcher s = Some s' \<longleftrightarrow>
     alive s \<and> mainpc s = M_GoWatcher \<and>
     s' = s\<lparr> notified := True, watcher := W_Recv, mainpc := M_Listen \<rparr>"
  by auto

lemma step_ListenFails:
  "step (L_ListenFails err) s = Some s' \<longleftrightarrow>
     alive s \<and> mainpc s = M_Listen \<and> (srv_closed s \<longrightarrow> err = ErrServerClosed) \<and>
     s' = s\<lparr> mainpc := M_SendShutdown,
             logs := logs s @ [Log_DaemonStarting '':19923'', Log_Error err],
             events := events s @ [Ev_ListenReturned] \<rparr>"
  by (auto simp: emit_def log_printf_def)

lemma step_Listens:
  "step L_Listens s = Some s' \<longleftrightarrow>
     alive s \<and> mainpc s = M_Listen \<and> \<not> srv_closed s \<and>
     s' = s\<lparr> srv_listening := True, mainpc := M_Serving,
             logs := logs s @ [Log_DaemonStarting '':19923''],
             events := events s @ [Ev_ListenerOpened] \<rparr>"
  by (auto simp: emit_def log_printf_def)

lemma step_ServeReturns:
  "step (L_ServeReturns err) s = Some s' \<longleftrightarrow>
     alive s \<and> mainpc s = M_Serving \<and> (srv_closed s \<longrightarrow> err = ErrServerClosed) \<and>
     s' = s\<lparr> srv_listening := False, mainpc := M_SendShutdown,
             logs := logs s @ [Log_Error err],
             events := events s @ [Ev_ListenReturned] \<rparr>"
  by (auto simp: emit_def log_printf_def)

lemma step_SendShutdown:
  "step L_SendShutdown s = Some s' \<longleftrightarrow>
     alive s \<and> mainpc s = M_SendShutdown \<and> cleanup s = C_Select \<and>
     s' = s\<lparr> mainpc := M_RecvClosed, cleanup := C_Ack,
             events := events s @ [Ev_ShutdownSent] \<rparr>"
  by (auto simp: emit_def)

lemma step_AckClosed:
  "step L_AckClosed s = Some s' \<longleftrightarrow>
     alive s \<and> mainpc s = M_RecvClosed \<and> cleanup s = C_Ack \<and>
     s' = s\<lparr> mainpc := M_CloseMeta, cleanup := C_Exited,
             events := events s @ [Ev_AckReceived] \<rparr>"
  by (auto simp: emit_def)

lemma step_CloseMeta:
  "step (L_CloseMeta r) s = Some s' \<longleftrightarrow>
     alive s \<and> mainpc s = M_CloseMeta \<and>
     (\<exists>ll. s' = s\<lparr> metaStore := Meta_Closed, logs := logs s @ ll @ [Log_GracefulShutdown],
                     mainpc := M_Returned, events := events s @ [Ev_RegistryClosed] \<rparr> \<and>
           ll = (case r of Some err \<Rightarrow> [Log_FailedCloseMeta err] | None \<Rightarrow> []))"
  by (auto simp: emit_def)

lemma step_Interrupt:
  "step L_Interrupt s = Some s' \<longleftrightarrow> alive s \<and> notified s \<and> s' = s\<lparr> c_pending := True \<rparr>"
  by auto

lemma step_WatcherRecv:
  "step L_WatcherRecv s = Some s' \<longleftrightarrow>
     alive s \<and> watcher s = W_Recv \<and> c_pending s \<and>
     s' = s\<lparr> c_pending := False, watcher := W_Close,
             logs := logs s @ [Log_Empty, Log_ReceivedShutdown] \<rparr>"
  by (auto simp: log_printf_def)

lemma step_WatcherClose:
  "step L_WatcherClose s = Some s' \<longleftrightarrow>
     alive s \<and> watcher s = W_Close \<and>
     s' = s\<lparr> srv_closed := True, srv_listening := False, watcher := W_Exited,
             events := events s @ [Ev_ListenerClosed] \<rparr>"
  by (auto simp: emit_def)

lemma step_TimerFires:
  "step L_TimerFires s = Some s' \<longleftrightarrow>
     alive s \<and> cleanup s = C_Select \<and>
     s' = s\<lparr> cleanup := C_ListAll, snapshot := [], samples := [], launched := [],
             killed := [], returned := [], drained := [] \<rparr>"
  by auto

lemma step_ListAll:
  "step (L_ListAll r) s = Some s' \<longleftrightarrow>
     alive s \<and> cleanup s = C_ListAll \<and>
     ((\<exists>err. r = Inl err \<and>
         s' = s\<lparr> cleanup := C_Select,
                 logs := logs s @ [Log_CleaningUp, Log_FailedCleanup err],
                 events := events s @ [Ev_ListAll (systemCtx s), Ev_SweepReturned (Some err)] \<rparr>) \<or>
      (\<exists>clusters. r = Inr clusters \<and>
         s' = s\<lparr> cleanup := C_Partition clusters [], snapshot := clusters,
                 logs := logs s @ [Log_CleaningUp],
                 events := events s @ [Ev_ListAll (systemCtx s)] \<rparr>))"
  by (auto simp: emit_def log_printf_def split: sum.splits)

lemma step_CheckTimeout:
  "step L_CheckTimeout s = Some s' \<longleftrightarrow>
     alive s \<and>
     (\<exists>cluster clusters clustersToKill.
        cleanup s = C_Partition (cluster # clusters) clustersToKill \<and>
        s' = s\<lparr> cleanup := C_Partition clusters (check_timeout cluster (now s) clustersToKill),
                samples := samples s @ [now s] \<rparr>)"
  by (auto split: cleanup_pc.splits list.splits)

lemma step_MakeSignal:
  "step L_MakeSignal s = Some s' \<longleftrightarrow>
     alive s \<and>
     (\<exists>clustersToKill.
        cleanup s = C_Partition [] clustersToKill \<and>
        s' = s\<lparr> sig_id := Suc (sig_id s), sig_cap := 0, sig_buf := [],
                cleanup := C_Spawn clustersToKill clustersToKill \<rparr>)"
  by (auto split: cleanup_pc.splits list.splits)

lemma step_GoKill:
  "step L_GoKill s = Some s' \<longleftrightarrow>
     alive s \<and>
     (\<exists>clustersToKill clusterID rest.
        cleanup s = C_Spawn clustersToKill (clusterID # rest) \<and>
        s' = s\<lparr> tasks := tasks s @ [T_Kill (sig_id s) clusterID],
                launched := launched s @ [clusterID],
                cleanup := C_Spawn clustersToKill rest \<rparr>)"
  by (auto split: cleanup_pc.splits list.splits)

lemma step_BeginDrain:
  "step L_BeginDrain s = Some s' \<longleftrightarrow>
     alive s \<and>
     (\<exists>clustersToKill.
        cleanup s = C_Spawn clustersToKill [] \<and>
        s' = s\<lparr> cleanup := C_Drain clustersToKill clustersToKill None \<rparr>)"
  by (auto split: cleanup_pc.splits list.splits)

lemma step_KillReturns:
  "step (L_KillReturns i r) s = Some s' \<longleftrightarrow>
     alive s \<and> i < length (tasks s) \<and>
     (\<exists>ch clusterID.
        tasks s ! i = T_Kill ch clusterID \<and>
        s' = s\<lparr> tasks := (tasks s)[i := T_Send ch clusterID r],
                killed := killed s @ [clusterID], returned := returned s @ [r],
                events := events s @ [Ev_Kill (systemCtx s) clusterID] \<rparr>)"
  by (auto simp: emit_def split: task.splits)

lemma step_SendBuffered:
  "step (L_SendBuffered i) s = Some s' \<longleftrightarrow>
     alive s \<and> i < length (tasks s) \<and> length (sig_buf s) < sig_cap s \<and>
     (\<exists>clusterID r.
        tasks s ! i = T_Send (sig_id s) clusterID r \<and>
        s' = s\<lparr> sig_buf := sig_buf s @ [r], tasks := delete_at i (tasks s) \<rparr>)"
  by (auto split: task.splits)

lemma step_Recv:
  "step (L_Recv i) s = Some s' \<longleftrightarrow>
     alive s \<and> i < length (tasks s) \<and> sig_buf s = [] \<and>
     (\<exists>clustersToKill x rest killError clusterID err.
        cleanup s = C_Drain clustersToKill (x # rest) killError \<and>
        tasks s ! i = T_Send (sig_id s) clusterID err \<and>
        s' = s\<lparr> tasks := delete_at i (tasks s), drained := drained s @ [err],
                cleanup := C_Drain clustersToKill rest (drain_one err killError) \<rparr>)"
  by (auto split: task.splits cleanup_pc.splits list.splits)

lemma step_RecvBuffered:
  "step L_RecvBuffered s = Some s' \<longleftrightarrow>
     alive s \<and>
     (\<exists>clustersToKill x rest killError err buf.
        cleanup s = C_Drain clustersToKill (x # rest) killError \<and> sig_buf s = err # buf \<and>
        s' = s\<lparr> sig_buf := buf, drained := drained s @ [err],
                cleanup := C_Drain clustersToKill rest (drain_one err killError) \<rparr>)"
  by (auto split: cleanup_pc.splits list.splits)

lemma step_SweepReturns:
  "step L_SweepReturns s = Some s' \<longleftrightarrow>
     alive s \<and>
     (\<exists>clustersToKill killError.
        cleanup s = C_Drain clustersToKill [] killError \<and>
        s' = s\<lparr> logs := logs s @
                  (case killError of Some err \<Rightarrow> [Log_FailedCleanup err] | None \<Rightarrow> []),
                cleanup := C_Select,
                events := events s @ [Ev_SweepReturned killError] \<rparr>)"
  by (auto simp: emit_def split: cleanup_pc.splits list.splits)

lemma step_Tick:
  "step (L_Tick t) s = Some s' \<longleftrightarrow> alive s \<and> s' = s\<lparr> now := t \<rparr>"
  by auto
text \<open>One rule for all labels: how a step can have happened.\<close>

lemma step_cases [consumes 1, case_names OpenMetaFails OpenMeta ConnectDockerFails ConnectDocker
    Panic NoMacvlan0 HasMacvlan0 NewContext GoCleanup GetAndPrintFails GoWatcher ListenFails Listens
    ServeReturns SendShutdown AckClosed CloseMeta Interrupt WatcherRecv WatcherClose TimerFires
    ListAllFails ListAll CheckTimeout MakeSignal GoKill BeginDrain KillReturns SendBuffered Recv
    RecvBuffered SweepReturns Tick GetAndPrint PrintCluster PrintDone]:
  assumes "step l s = Some s'"
  obtains
    err where "l = L_OpenMeta (Some err)" "alive s" "mainpc s = M_OpenMeta"
      "s' = s\<lparr> mainpc := M_Returned, logs := logs s @ [Log_FailedOpenMeta err] \<rparr>"
  | "l = L_OpenMeta None" "alive s" "mainpc s = M_OpenMeta"
      "s' = s\<lparr> metaStore := Meta_Open, mainpc := M_ConnectDocker \<rparr>"
  | err where "l = L_ConnectDocker (Some err)" "alive s" "mainpc s = M_ConnectDocker"
      "s' = s\<lparr> mainpc := M_Returned, logs := logs s @ [Log_FailedConnectDocker err] \<rparr>"
  | "l = L_ConnectDocker None" "alive s" "mainpc s = M_ConnectDocker"
      "s' = s\<lparr> docker := True, mainpc := M_HasMacvlan0 \<rparr>"
  | r err where "l = L_HasMacvlan0 r" "alive s" "mainpc s = M_HasMacvlan0"
      "hasMacvlan0 r = Inl err" "s' = s\<lparr> mainpc := M_Panicked err \<rparr>"
  | r where "l = L_HasMacvlan0 r" "alive s" "mainpc s = M_HasMacvlan0"
      "hasMacvlan0 r = Inr False"
      "s' = s\<lparr> mainpc := M_Returned, logs := logs s @ [Log_FailedLocateMacvlan0] \<rparr>"
  | r where "l = L_HasMacvlan0 r" "alive s" "mainpc s = M_HasMacvlan0"
      "hasMacvlan0 r = Inr True" "s' = s\<lparr> mainpc := M_NewContext \<rparr>"
  | "l = L_NewContext" "alive s" "mainpc s = M_NewContext"
      "s' = s\<lparr> systemCtx := Some (NewContext Background ''system'' True),
              mainpc := M_GoCleanup,
              events := events s @ [Ev_NewContext (NewContext Background ''system'' True)] \<rparr>"
  | "l = L_GoCleanup" "alive s" "mainpc s = M_GoCleanup"
      "s' = s\<lparr> cleanup := C_Select, mainpc := M_GetAndPrint \<rparr>"
  | err where "l = L_GetAndPrint (Inl err)" "alive s" "mainpc s = M_GetAndPrint"
      "s' = s\<lparr> mainpc := M_GoWatcher, logs := logs s @ [Log_FailedFetch err],
              events := events s @ [Ev_ListAll (systemCtx s)] \<rparr>"
  | "l = L_GoWatcher" "alive s" "mainpc s = M_GoWatcher"
      "s' = s\<lparr> notified := True, watcher := W_Recv, mainpc := M_Listen \<rparr>"
  | err where "l = L_ListenFails err" "alive s" "mainpc s = M_Listen"
      "srv_closed s \<longrightarrow> err = ErrServerClosed"
      "s' = s\<lparr> mainpc := M_SendShutdown,
              logs := logs s @ [Log_DaemonStarting '':19923'', Log_Error err],
              events := events s @ [Ev_ListenReturned] \<rparr>"
  | "l = L_Listens" "alive s" "mainpc s = M_Listen" "\<not> srv_closed s"
      "s' = s\<lparr> srv_listening := True, mainpc := M_Serving,
              logs := logs s @ [Log_DaemonStarting '':19923''],
              events := events s @ [Ev_ListenerOpened] \<rparr>"
  | err where "l = L_ServeReturns err" "alive s" "mainpc s = M_Serving"
      "srv_closed s \<longrightarrow> err = ErrServerClosed"
      "s' = s\<lparr> srv_listening := False, mainpc := M_SendShutdown,
              logs := logs s @ [Log_Error err],
              events := events s @ [Ev_ListenReturned] \<rparr>"
  | "l = L_SendShutdown" "alive s" "mainpc s = M_SendShutdown" "cleanup s = C_Select"
      "s' = s\<lparr> mainpc := M_RecvClosed, cleanup := C_Ack,
              events := events s @ [Ev_ShutdownSent] \<rparr>"
  | "l = L_AckClosed" "alive s" "mainpc s = M_RecvClosed" "cleanup s = C_Ack"
      "s' = s\<lparr> mainpc := M_CloseMeta, cleanup := C_Exited,
              events := events s @ [Ev_AckReceived] \<rparr>"
  | r ll where "l = L_CloseMeta r" "alive s" "mainpc s = M_CloseMeta"
      "s' = s\<lparr> metaStore := Meta_Closed, logs := logs s @ ll @ [Log_GracefulShutdown],
              mainpc := M_Returned, events := events s @ [Ev_RegistryClosed] \<rparr>"
  | "l = L_Interrupt" "alive s" "notified s" "s' = s\<lparr> c_pending := True \<rparr>"
  | "l = L_WatcherRecv" "alive s" "watcher s = W_Recv" "c_pending s"
      "s' = s\<lparr> c_pending := False, watcher := W_Close,
              logs := logs s @ [Log_Empty, Log_ReceivedShutdown] \<rparr>"
  | "l = L_WatcherClose" "alive s" "watcher s = W_Close"
      "s' = s\<lparr> srv_closed := True, srv_listening := False, watcher := W_Exited,
              events := events s @ [Ev_ListenerClosed] \<rparr>"
  | "l = L_TimerFires" "alive s" "cleanup s = C_Select"
      "s' = s\<lparr> cleanup := C_ListAll, snapshot := [], samples := [], launched := [],
              killed := [], returned := [], drained := [] \<rparr>"
  | err where "l = L_ListAll (Inl err)" "alive s" "cleanup s = C_ListAll"
      "s' = s\<lparr> cleanup := C_Select,
              logs := logs s @ [Log_CleaningUp, Log_FailedCleanup err],
              events := events s @ [Ev_ListAll (systemCtx s), Ev_SweepReturned (Some err)] \<rparr>"
  | clusters where "l = L_ListAll (Inr clusters)" "alive s" "cleanup s = C_ListAll"
      "s' = s\<lparr> cleanup := C_Partition clusters [], snapshot := clusters,
              logs := logs s @ [Log_CleaningUp],
              events := events s @ [Ev_ListAll (systemCtx s)] \<rparr>"
  | cluster clusters clustersToKill where "l = L_CheckTimeout" "alive s"
      "cleanup s = C_Partition (cluster # clusters) clustersToKill"
      "s' = s\<lparr> cleanup := C_Partition clusters (check_timeout cluster (now s) clustersToKill),
              samples := samples s @ [now s] \<rparr>"
  | clustersToKill where "l = L_MakeSignal" "alive s"
      "cleanup s = C_Partition [] clustersToKill"
      "s' = s\<lparr> sig_id := Suc (sig_id s), sig_cap := 0, sig_buf := [],
              cleanup := C_Spawn clustersToKill clustersToKill \<rparr>"
  | clustersToKill clusterID rest where "l = L_GoKill" "alive s"
      "cleanup s = C_Spawn clustersToKill (clusterID # rest)"
      "s' = s\<lparr> tasks := tasks s @ [T_Kill (sig_id s) clusterID],
              launched := launched s @ [clusterID],
              cleanup := C_Spawn clustersToKill rest \<rparr>"
  | clustersToKill where "l = L_BeginDrain" "alive s"
      "cleanup s = C_Spawn clustersToKill []"
      "s' = s\<lparr> cleanup := C_Drain clustersToKill clustersToKill None \<rparr>"
  | i r ch clusterID where "l = L_KillReturns i r" "alive s" "i < length (tasks s)"
      "tasks s ! i = T_Kill ch clusterID"
      "s' = s\<lparr> tasks := (tasks s)[i := T_Send ch clusterID r],
              killed := killed s @ [clusterID], returned := returned s @ [r],
              events := events s @ [Ev_Kill (systemCtx s) clusterID] \<rparr>"
  | i clusterID r where "l = L_SendBuffered i" "alive s" "i < length (tasks s)"
      "length (sig_buf s) < sig_cap s"
      "tasks s ! i = T_Send (sig_id s) clusterID r"
      "s' = s\<lparr> sig_buf := sig_buf s @ [r], tasks := delete_at i (tasks s) \<rparr>"
  | i clustersToKill x rest killError clusterID err where "l = L_Recv i" "alive s"
      "i < length (tasks s)" "sig_buf s = []"
      "cleanup s = C_Drain clustersToKill (x # rest) killError"
      "tasks s ! i = T_Send (sig_id s) clusterID err"
      "s' = s\<lparr> tasks := delete_at i (tasks s), drained := drained s @ [err],
              cleanup := C_Drain clustersToKill rest (drain_one err killError) \<rparr>"
  | clustersToKill x rest killError err buf where "l = L_RecvBuffered" "alive s"
      "cleanup s = C_Drain clustersToKill (x # rest) killError" "sig_buf s = err # buf"
      "s' = s\<lparr> sig_buf := buf, drained := drained s @ [err],
              cleanup := C_Drain clustersToKill rest (drain_one err killError) \<rparr>"
  | clustersToKill killError where "l = L_SweepReturns" "alive s"
      "cleanup s = C_Drain clustersToKill [] killError"
      "s' = s\<lparr> logs := logs s @
                (case killError of Some err \<Rightarrow> [Log_FailedCleanup err] | None \<Rightarrow> []),
              cleanup := C_Select,
              events := events s @ [Ev_SweepReturned killError] \<rparr>"
  | t where "l = L_Tick t" "alive s" "s' = s\<lparr> now := t \<rparr>"
  | clusters where "l = L_GetAndPrint (Inr clusters)" "alive s" "mainpc s = M_GetAndPrint"
      "s' = s\<lparr> mainpc := M_PrintClusters clusters, logs := logs s @ [Log_Clusters],
              events := events s @ [Ev_ListAll (systemCtx s)] \<rparr>"
  | cluster clusters where "l = L_PrintCluster" "alive s"
      "mainpc s = M_PrintClusters (cluster # clusters)"
      "s' = s\<lparr> logs := logs s @ print_cluster (now s) cluster,
              mainpc := M_PrintClusters clusters \<rparr>"
  | "l = L_PrintDone" "alive s" "mainpc s = M_PrintClusters []"
      "s' = s\<lparr> mainpc := M_GoWatcher \<rparr>"
proof (cases l)
  case (L_OpenMeta r)
  show ?thesis using assms that(1,2) unfolding L_OpenMeta step_OpenMeta by blast
next
  case (L_ConnectDocker r)
  show ?thesis using assms that(3,4) unfolding L_ConnectDocker step_ConnectDocker by blast
next
  case (L_HasMacvlan0 r)
  show ?thesis using assms that(5,6,7) unfolding L_HasMacvlan0 step_HasMacvlan0 by blast
next
  case L_NewContext
  show ?thesis using assms that(8) unfolding L_NewContext step_NewContext by blast
next
  case L_GoCleanup
  show ?thesis using assms that(9) unfolding L_GoCleanup step_GoCleanup by blast
next
  case (L_GetAndPrint r)
  show ?thesis using assms that(10,34) unfolding L_GetAndPrint step_GetAndPrint by blast
next
  case L_GoWatcher
  show ?thesis using assms that(11) unfolding L_GoWatcher step_GoWatcher by blast
next
  case (L_ListenFails e)
  show ?thesis using assms that(12) unfolding L_ListenFails step_ListenFails by blast
next
  case L_Listens
  show ?thesis using assms that(13) unfolding L_Listens step_Listens by blast
next
  case (L_ServeReturns e)
  show ?thesis using assms that(14) unfolding L_ServeReturns step_ServeReturns by blast
next
  case L_SendShutdown
  show ?thesis using assms that(15) unfolding L_SendShutdown step_SendShutdown by blast
next
  case L_AckClosed
  show ?thesis using assms that(16) unfolding L_AckClosed step_AckClosed by blast
next
  case (L_CloseMeta r)
  show ?thesis using assms that(17) unfolding L_CloseMeta step_CloseMeta by blast
next
  case L_Interrupt
  show ?thesis using assms that(18) unfolding L_Interrupt step_Interrupt by blast
next
  case L_WatcherRecv
  show ?thesis using assms that(19) unfolding L_WatcherRecv step_WatcherRecv by blast
next
  case L_WatcherClose
  show ?thesis using assms that(20) unfolding L_WatcherClose step_WatcherClose by blast
next
  case L_TimerFires
  show ?thesis using assms that(21) unfolding L_TimerFires step_TimerFires by blast
next
  case (L_ListAll r)
  show ?thesis using assms that(22,23) unfolding L_ListAll step_ListAll by blast
next
  case L_CheckTimeout
  show ?thesis using assms that(24) unfolding L_CheckTimeout step_CheckTimeout by blast
next
  case L_MakeSignal
  show ?thesis using assms that(25) unfolding L_MakeSignal step_MakeSignal by blast
next
  case L_GoKill
  show ?thesis using assms that(26) unfolding L_GoKill step_GoKill by blast
next
  case L_BeginDrain
  show ?thesis using assms that(27) unfolding L_BeginDrain step_BeginDrain by blast
next
  case (L_KillReturns i r)
  show ?thesis using assms that(28) unfolding L_KillReturns step_KillReturns by blast
next
  case (L_SendBuffered i)
  show ?thesis using assms that(29) unfolding L_SendBuffered step_SendBuffered by blast
next
  case (L_Recv i)
  show ?thesis using assms that(30) unfolding L_Recv step_Recv by blast
next
  case L_RecvBuffered
  show ?thesis using assms that(31) unfolding L_RecvBuffered step_RecvBuffered by blast
next
  case L_SweepReturns
  show ?thesis using assms that(32) unfolding L_SweepReturns step_SweepReturns by blast
next
  case (L_Tick t)
  show ?thesis using assms that(33) unfolding L_Tick step_Tick by blast
next
  case L_PrintCluster
  show ?thesis using assms that(35) unfolding L_PrintCluster step_PrintCluster by blast
next
  case L_PrintDone
  show ?thesis using assms that(36) unfolding L_PrintDone step_PrintDone by blast
qed

subsection \<open>Runs\<close>

lemma run_append:
  "run (ls @ ls') s = (case run ls s of None \<Rightarrow> None | Some s' \<Rightarrow> run ls' s')"
  by (induction ls arbitrary: s) (auto split: option.splits)

lemma run_snoc:
  "run (ls @ [l]) s = (case run ls s of None \<Rightarrow> None | Some s' \<Rightarrow> step l s')"
  by (simp add: run_append split: option.splits)

lemma invariant_run:
  assumes "run ls s0 = Some s" and "P s0"
    and "\<And>l s s'. P s \<Longrightarrow> step l s = Some s' \<Longrightarrow> P s'"
  shows "P s"
  using assms(1,2)
proof (induction ls arbitrary: s0)
  case Nil
  then show ?case by simp
next
  case (Cons l ls)
  then show ?case using assms(3) by (auto split: option.splits)
qed

subsection \<open>Lists of teardown goroutines, results and samples\<close>

lemma kill_pending_append: "kill_pending (ts @ us) = kill_pending ts @ kill_pending us"
  by (induction ts rule: kill_pending.induct) auto

lemma kill_pending_update:
  "i < length ts \<Longrightarrow> ts ! i = T_Kill ch c \<Longrightarrow>
   mset (kill_pending ts) = add_mset c (mset (kill_pending (ts[i := T_Send ch c r])))"
proof (induction ts arbitrary: i rule: kill_pending.induct)
  case 1 then show ?case by simp
next
  case (2 ch' c' ts) then show ?case by (cases i) auto
next
  case (3 ch' c' r' ts) then show ?case by (cases i) auto
qed

lemma kill_pending_delete:
  "i < length ts \<Longrightarrow> ts ! i = T_Send ch c r \<Longrightarrow>
   kill_pending (delete_at i ts) = kill_pending ts"
proof (induction ts arbitrary: i rule: kill_pending.induct)
  case 1 then show ?case by simp
next
  case (2 ch' c' ts) then show ?case by (cases i) (auto simp: delete_at_def)
next
  case (3 ch' c' r' ts) then show ?case by (cases i) (auto simp: delete_at_def)
qed

lemma sent_values_append: "sent_values (ts @ us) = sent_values ts @ sent_values us"
  by (induction ts rule: sent_values.induct) auto

lemma sent_values_update:
  "i < length ts \<Longrightarrow> ts ! i = T_Kill ch c \<Longrightarrow>
   mset (sent_values (ts[i := T_Send ch c r])) = add_mset r (mset (sent_values ts))"
proof (induction ts arbitrary: i rule: sent_values.induct)
  case 1 then show ?case by simp
next
  case (2 ch' c' ts) then show ?case by (cases i) auto
next
  case (3 ch' c' r' ts) then show ?case by (cases i) auto
qed

lemma sent_values_delete:
  "i < length ts \<Longrightarrow> ts ! i = T_Send ch c r \<Longrightarrow>
   mset (sent_values ts) = add_mset r (mset (sent_values (delete_at i ts)))"
proof (induction ts arbitrary: i rule: sent_values.induct)
  case 1 then show ?case by simp
next
  case (2 ch' c' ts) then show ?case by (cases i) (auto simp: delete_at_def)
next
  case (3 ch' c' r' ts) then show ?case by (cases i) (auto simp: delete_at_def)
qed

lemma length_delete_at: "i < length ts \<Longrightarrow> length ts = Suc (length (delete_at i ts))"
  by (auto simp: delete_at_def)

lemma set_delete_at: "set (delete_at i ts) \<subseteq> set ts"
  by (auto simp: delete_at_def dest: in_set_takeD in_set_dropD)

lemma first_error_snoc: "first_error (rs @ [r]) = drain_one r (first_error rs)"
  by (induction rs rule: first_error.induct) (auto simp: drain_one_def)

lemma first_error_append:
  "first_error rs = Some e \<Longrightarrow> first_error (rs @ rs') = Some e"
  by (induction rs rule: first_error.induct) auto

lemma first_error_mem: "first_error rs = Some e \<Longrightarrow> Some e \<in> set rs"
  by (induction rs rule: first_error.induct) auto

lemma first_error_None: "first_error rs = None \<longleftrightarrow> (\<forall>r \<in> set rs. r = None)"
  by (induction rs rule: first_error.induct) auto

lemma task_chan_nth:
  "\<forall>t \<in> set ts. task_chan t = c \<Longrightarrow> i < length ts \<Longrightarrow> task_chan (ts ! i) = c"
  by simp

lemma task_chan_update:
  "\<forall>t \<in> set ts. task_chan t = c \<Longrightarrow> task_chan u = c \<Longrightarrow>
   \<forall>t \<in> set (ts[i := u]). task_chan t = c"
  by (metis insert_iff set_update_subset_insert subsetD)

lemma task_chan_delete:
  "\<forall>t \<in> set ts. task_chan t = c \<Longrightarrow> \<forall>t \<in> set (delete_at i ts). task_chan t = c"
  using set_delete_at[of i ts] by auto

lemma selected_snoc:
  "drop (length ts) cs = c # rest \<Longrightarrow>
   selected cs (ts @ [t]) = check_timeout c t (selected cs ts)"
  by (induction cs ts rule: selected.induct) (simp_all add: check_timeout_def Before_def)

lemma drop_Cons_Suc: "drop n xs = y # ys \<Longrightarrow> drop (Suc n) xs = ys"
  by (metis drop_Suc list.sel(3) tl_drop)

lemma drop_Cons_length: "drop n xs = y # ys \<Longrightarrow> n < length xs"
  by (metis drop_all list.distinct(1) not_le)

lemma selected_single_sample:
  "length ts = length cs \<Longrightarrow> set ts \<subseteq> {t} \<Longrightarrow> selected cs ts = expired_at t cs"
  by (induction ts cs rule: list_induct2) (auto simp: expired_at_def)

lemma selected_none:
  "list_all2 (\<lambda>c t. \<not> Timeout c < t) cs ts \<Longrightarrow> selected cs ts = []"
  by (induction cs ts rule: list_all2_induct) auto

subsection \<open>The invariants hold in every reachable state\<close>

lemma cleanup_phase_simps [simp]:
  "cleanup_phase c = Ph_NotStarted \<longleftrightarrow> c = C_NotStarted"
  "cleanup_phase c = Ph_Ack \<longleftrightarrow> c = C_Ack"
  "cleanup_phase c = Ph_Exited \<longleftrightarrow> c = C_Exited"
  "cleanup_phase c = Ph_Running \<longleftrightarrow> c = C_Select \<or> in_sweep c"
  by (cases c; simp)+

lemma in_sweep_running: "in_sweep c \<Longrightarrow> cleanup_phase c = Ph_Running"
  by (cases c) simp_all

lemma in_sweep_started: "in_sweep c \<Longrightarrow> c \<noteq> C_NotStarted"
  by (cases c) simp_all

lemma pc_inv_step:
  assumes "step l s = Some s'" and "pc_inv s"
  shows "pc_inv s'"
  using assms by (cases rule: step_cases) (simp_all add: pc_inv_def alive_def)

lemma chan_inv_step:
  assumes "step l s = Some s'" and "chan_inv s"
  shows "chan_inv s'"
  using assms by (cases rule: step_cases) (simp_all add: chan_inv_def)

lemma tasks_inv_step:
  assumes "step l s = Some s'" and "tasks_inv s" and "chan_inv s" and "pc_inv s"
  shows "tasks_inv s'"
  using assms
proof (cases rule: step_cases)
  case (KillReturns i r ch c)
  have all: "\<forall>t \<in> set (tasks s). task_chan t = sig_id s"
    using assms(2) by (simp add: tasks_inv_def)
  have ch: "ch = sig_id s"
    using task_chan_nth[OF all KillReturns(3)] KillReturns(4) by simp
  have c: "\<forall>t \<in> set ((tasks s)[i := T_Send ch c r]). task_chan t = sig_id s"
    by (rule task_chan_update[OF all]) (simp add: ch)
  have m: "mset (kill_pending (tasks s)) =
           add_mset c (mset (kill_pending ((tasks s)[i := T_Send ch c r])))"
    by (rule kill_pending_update[OF KillReturns(3,4)])
  have ne: "tasks s \<noteq> []" using KillReturns(3) by auto
  show ?thesis
    using assms(2) c ne unfolding tasks_inv_def KillReturns(5)
    by (simp add: m)
next
  case (Recv i all x rest ke c r)
  have a: "\<forall>t \<in> set (tasks s). task_chan t = sig_id s"
    using assms(2) by (simp add: tasks_inv_def)
  show ?thesis
    using assms(2) Recv(3) task_chan_delete[OF a, of i] length_delete_at[OF Recv(3)]
    unfolding tasks_inv_def Recv(7)
    by (auto simp: Recv(5) kill_pending_delete[OF Recv(3,6)] first_error_snoc)
next
  case GoCleanup
  then show ?thesis
    using assms(2,4) by (clarsimp simp add: tasks_inv_def pc_inv_def alive_def)
qed (clarsimp simp add: tasks_inv_def chan_inv_def kill_pending_append)+

lemma results_inv_step:
  assumes "step l s = Some s'" and "results_inv s" and "chan_inv s" and "tasks_inv s"
  shows "results_inv s'"
  using assms
proof (cases rule: step_cases)
  case (KillReturns i r ch c)
  show ?thesis
    using assms(2) sent_values_update[OF KillReturns(3,4), of r]
    unfolding results_inv_def KillReturns(5) by simp
next
  case (Recv i all x rest ke c r)
  show ?thesis
    using assms(2) sent_values_delete[OF Recv(3,6)]
    unfolding results_inv_def Recv(7) by simp
next
  case TimerFires
  then show ?thesis
    using assms(4) by (clarsimp simp add: results_inv_def tasks_inv_def)
qed (simp_all add: results_inv_def chan_inv_def sent_values_append)

lemma select_inv_step:
  assumes "step l s = Some s'" and "select_inv s" and "pc_inv s" and "tasks_inv s"
  shows "select_inv s'"
  using assms
proof (cases rule: step_cases)
  case (CheckTimeout cluster clusters clustersToKill)
  have d: "drop (length (samples s)) (snapshot s) = cluster # clusters"
    and k: "clustersToKill = selected (snapshot s) (samples s)"
    using assms(2) CheckTimeout(3) by (simp_all add: select_inv_def)
  show ?thesis
    using drop_Cons_Suc[OF d] drop_Cons_length[OF d] selected_snoc[OF d] k
    unfolding select_inv_def CheckTimeout(4) by simp
next
  case (MakeSignal clustersToKill)
  have d: "drop (length (samples s)) (snapshot s) = []"
    and k: "clustersToKill = selected (snapshot s) (samples s)"
    and le: "length (samples s) \<le> length (snapshot s)"
    using assms(2) MakeSignal(3) by (simp_all add: select_inv_def)
  show ?thesis
    using d k le unfolding select_inv_def MakeSignal(4) by simp
next
  case GoCleanup
  then show ?thesis
    using assms(2,3) by (clarsimp simp add: select_inv_def pc_inv_def alive_def)
next
  case (SweepReturns clustersToKill killError)
  then show ?thesis
    using assms(2,4) by (clarsimp simp add: select_inv_def tasks_inv_def)
next
  case (ListAllFails err)
  then show ?thesis
    using assms(2,4) by (clarsimp simp add: select_inv_def tasks_inv_def)
qed (simp_all add: select_inv_def)

lemma ctx_inv_step:
  assumes "step l s = Some s'" and "ctx_inv s" and "pc_inv s" and "tasks_inv s"
  shows "ctx_inv s'"
  using assms
proof (cases rule: step_cases)
  case (KillReturns i r ch c)
  have "tasks s \<noteq> []" using KillReturns(3) by auto
  then have "in_sweep (cleanup s)" using assms(4) by (auto simp: tasks_inv_def)
  then have c: "cleanup s \<noteq> C_NotStarted" by (rule in_sweep_started)
  then show ?thesis
    using assms(2,3) c unfolding ctx_inv_def pc_inv_def KillReturns(5) by simp
qed (simp_all add: ctx_inv_def pc_inv_def alive_def system_context_def)

lemma shutdown_inv_step:
  assumes "step l s = Some s'" and "shutdown_inv s" and "pc_inv s"
  shows "shutdown_inv s'"
  using assms
  by (cases rule: step_cases)
    (simp_all add: shutdown_inv_def pc_inv_def alive_def shutdown_sequence_def)

lemma inv_init: "inv init"
  by (simp add: inv_def init_def pc_inv_def chan_inv_def tasks_inv_def results_inv_def
      select_inv_def
      ctx_inv_def shutdown_inv_def)

lemma inv_step:
  assumes "inv s" and "step l s = Some s'"
  shows "inv s'"
proof -
  have i: "pc_inv s" "chan_inv s" "tasks_inv s" "results_inv s" "select_inv s" "ctx_inv s"
    "shutdown_inv s"
    using assms(1) by (simp_all add: inv_def)
  note st = assms(2)
  have "pc_inv s'" by (rule pc_inv_step[OF st i(1)])
  moreover have "chan_inv s'" by (rule chan_inv_step[OF st i(2)])
  moreover have "tasks_inv s'" by (rule tasks_inv_step[OF st i(3) i(2) i(1)])
  moreover have "results_inv s'" by (rule results_inv_step[OF st i(4) i(2) i(3)])
  moreover have "select_inv s'" by (rule select_inv_step[OF st i(5) i(1) i(3)])
  moreover have "ctx_inv s'" by (rule ctx_inv_step[OF st i(6) i(1) i(3)])
  moreover have "shutdown_inv s'" by (rule shutdown_inv_step[OF st i(7) i(1)])
  ultimately show ?thesis by (simp add: inv_def)
qed

lemma inv_run: "inv s \<Longrightarrow> run ls s = Some s' \<Longrightarrow> inv s'"
  by (rule invariant_run[where P = inv]) (auto intro: inv_step)

lemma reachable_inv: "run ls init = Some s \<Longrightarrow> inv s"
  using inv_run[OF inv_init] .

subsection \<open>Consequences of the invariant\<close>

lemma step_not_alive: "\<not> alive s \<Longrightarrow> step l s = None"
  by (cases l) simp_all


lemma ctx_stable_step:
  assumes "step l s = Some s'" and "ctx_inv s" and "systemCtx s \<noteq> None"
  shows "systemCtx s' = systemCtx s"
  using assms by (cases rule: step_cases) (simp_all add: ctx_inv_def)

lemma ctx_stable_run:
  "inv s \<Longrightarrow> systemCtx s \<noteq> None \<Longrightarrow> run ls s = Some s' \<Longrightarrow> systemCtx s' = systemCtx s"
proof (induction ls arbitrary: s)
  case Nil
  then show ?case by simp
next
  case (Cons l ls)
  from Cons.prems(3) obtain s1 where st: "step l s = Some s1" and r: "run ls s1 = Some s'"
    by (auto split: option.splits)
  have c: "systemCtx s1 = systemCtx s"
    using ctx_stable_step[OF st] Cons.prems(1,2) by (simp add: inv_def)
  have "systemCtx s' = systemCtx s1"
    using Cons.IH[OF inv_step[OF Cons.prems(1) st] _ r] c Cons.prems(2) by simp
  then show ?case using c by simp
qed


lemma launched_selected:
  assumes "inv s"
  shows "set (launched s) \<subseteq> set (selected (snapshot s) (samples s))"
proof -
  have i: "tasks_inv s" "select_inv s"
    using assms by (simp_all add: inv_def)
  show ?thesis
  proof (cases "cleanup s")
    case (C_Partition clusters clustersToKill)
    then show ?thesis using i(1) by (simp add: tasks_inv_def)
  next
    case (C_Spawn clustersToKill rest)
    then have "selected (snapshot s) (samples s) = launched s @ rest"
      using i by (simp add: tasks_inv_def select_inv_def)
    then show ?thesis by simp
  next
    case (C_Drain clustersToKill rest killError)
    then have "selected (snapshot s) (samples s) = launched s"
      using i by (simp add: tasks_inv_def select_inv_def)
    then show ?thesis by simp
  next
    case C_ListAll
    then show ?thesis using i(1) by (simp add: tasks_inv_def)
  qed (use i(2) in \<open>simp_all add: select_inv_def\<close>)
qed

lemma nothing_launched:
  assumes "inv s" and "launched s = []"
  shows "tasks s = [] \<and> killed s = [] \<and> drained s = [] \<and> returned s = []"
  using assms by (auto simp: inv_def tasks_inv_def results_inv_def)

lemma alive_in_sweep:
  assumes "inv s" and "in_sweep (cleanup s)"
  shows "alive s"
proof (rule ccontr)
  assume "\<not> alive s"
  then have "cleanup s = C_NotStarted \<or> cleanup s = C_Exited"
    using assms(1) by (simp add: inv_def pc_inv_def alive_def)
  then show False using assms(2) by auto
qed

lemma partition_nothing_expired:
  "alive s \<Longrightarrow> cleanup s = C_Partition clusters clustersToKill \<Longrightarrow>
   \<forall>c \<in> set clusters. \<not> Timeout c < now s \<Longrightarrow>
   run (replicate (length clusters) L_CheckTimeout) s =
     Some (s\<lparr> cleanup := C_Partition [] clustersToKill,
              samples := samples s @ replicate (length clusters) (now s) \<rparr>)"
proof (induction clusters arbitrary: s)
  case Nil
  then show ?case by simp
next
  case (Cons c clusters)
  let ?s1 = "s\<lparr> cleanup := C_Partition clusters clustersToKill,
                 samples := samples s @ [now s] \<rparr>"
  have st: "step L_CheckTimeout s = Some ?s1"
    using Cons.prems by (simp add: check_timeout_def Before_def)
  have "run (replicate (length clusters) L_CheckTimeout) ?s1 =
     Some (?s1\<lparr> cleanup := C_Partition [] clustersToKill,
              samples := samples ?s1 @ replicate (length clusters) (now ?s1) \<rparr>)"
    by (rule Cons.IH) (use Cons.prems in \<open>simp_all add: alive_def\<close>)
  then show ?case using st by (simp add: replicate_app_Cons_same)
qed

lemma events_step: "step l s = Some s' \<Longrightarrow> set (events s) \<subseteq> set (events s')"
  by (cases rule: step_cases) auto

lemma events_run: "run ls s = Some s' \<Longrightarrow> set (events s) \<subseteq> set (events s')"
proof (induction ls arbitrary: s)
  case Nil
  then show ?case by simp
next
  case (Cons l ls)
  then show ?case using events_step by (fastforce split: option.splits)
qed

lemma in_handshake_progress: "alive_pc pc \<Longrightarrow> Ev_ListenReturned \<in> set (shutdown_progress pc) \<Longrightarrow> in_handshake pc"
  by (cases pc) simp_all

lemma length_check_timeout: "length (check_timeout c t acc) \<le> Suc (length acc)"
  by (simp add: check_timeout_def)

lemma sweep_progress:
  assumes "inv s" and "in_sweep (cleanup s)"
  shows "\<exists>l s'. step l s = Some s' \<and> mainpc s' = mainpc s \<and>
           (cleanup s' = C_Select \<or> in_sweep (cleanup s')) \<and>
           sweep_work (cleanup s') (tasks s') < sweep_work (cleanup s) (tasks s)"
proof -
  have alv: "alive s" by (rule alive_in_sweep[OF assms])
  have i: "tasks_inv s" "chan_inv s" using assms(1) by (simp_all add: inv_def)
  show ?thesis
  proof (cases "cleanup s")
    case C_ListAll
    show ?thesis
      by (rule exI[of _ "L_ListAll (Inl [])"]) (use alv C_ListAll in \<open>simp add: emit_def log_printf_def\<close>)
  next
    case (C_Partition clusters clustersToKill)
    show ?thesis
    proof (cases clusters)
      case Nil
      have "tasks s = []" using i(1) C_Partition by (auto simp: tasks_inv_def)
      then show ?thesis
        by (intro exI[of _ L_MakeSignal]) (use alv C_Partition Nil in simp)
    next
      case (Cons c cs)
      show ?thesis
        using length_check_timeout[of c "now s" clustersToKill]
        by (intro exI[of _ L_CheckTimeout]) (use alv C_Partition Cons in simp)
    qed
  next
    case (C_Spawn clustersToKill rest)
    show ?thesis
    proof (cases rest)
      case Nil
      show ?thesis
        by (intro exI[of _ L_BeginDrain]) (use alv C_Spawn Nil in simp)
    next
      case (Cons c cs)
      show ?thesis
        by (intro exI[of _ L_GoKill]) (use alv C_Spawn Cons in simp)
    qed
  next
    case (C_Drain clustersToKill rest killError)
    show ?thesis
    proof (cases rest)
      case Nil
      show ?thesis
        by (intro exI[of _ L_SweepReturns]) (use alv C_Drain Nil in \<open>simp add: emit_def\<close>)
    next
      case (Cons x xs)
      have "length (tasks s) = length rest"
        using i(1) C_Drain by (auto simp: tasks_inv_def)
      then obtain t ts where ts: "tasks s = t # ts"
        using Cons by (cases "tasks s") auto
      have ch: "task_chan t = sig_id s"
        using i(1) ts by (simp add: tasks_inv_def)
      have buf: "sig_buf s = []" using i(2) by (simp add: chan_inv_def)
      show ?thesis
      proof (cases t)
        case (T_Kill ch c)
        show ?thesis
          by (intro exI[of _ "L_KillReturns 0 None"])
             (use alv C_Drain Cons ts T_Kill in \<open>simp add: emit_def\<close>)
      next
        case (T_Send ch c r)
        show ?thesis
          by (intro exI[of _ "L_Recv 0"])
             (use alv C_Drain Cons ts T_Send ch buf in \<open>simp add: delete_at_def\<close>)
      qed
    qed
  qed (use assms(2) in simp_all)
qed

lemma sweep_can_return:
  "inv s \<Longrightarrow> cleanup s = C_Select \<or> in_sweep (cleanup s) \<Longrightarrow>
   \<exists>ls s'. run ls s = Some s' \<and> mainpc s' = mainpc s \<and> cleanup s' = C_Select"
proof (induction "sweep_work (cleanup s) (tasks s)" arbitrary: s rule: less_induct)
  case less
  show ?case
  proof (cases "cleanup s = C_Select")
    case True
    have "run [] s = Some s" by simp
    then show ?thesis using True by blast
  next
    case False
    then have sw: "in_sweep (cleanup s)" using less.prems(2) by simp
    obtain l s1 where st: "step l s = Some s1" and m: "mainpc s1 = mainpc s"
      and c: "cleanup s1 = C_Select \<or> in_sweep (cleanup s1)"
      and w: "sweep_work (cleanup s1) (tasks s1) < sweep_work (cleanup s) (tasks s)"
      using sweep_progress[OF less.prems(1) sw] by blast
    obtain ls s' where r: "run ls s1 = Some s'" "mainpc s' = mainpc s1" "cleanup s' = C_Select"
      using less.hyps[OF w inv_step[OF less.prems(1) st] c] by blast
    have "run (l # ls) s = Some s'" using st r(1) by simp
    then show ?thesis using r(2,3) m by metis
  qed
qed

lemma handshake_can_finish:
  assumes "inv s" and "alive s" and "in_handshake (mainpc s)"
  shows "\<exists>ls s'. run ls s = Some s' \<and> mainpc s' = M_Returned"
proof -
  have p: "pc_inv s" using assms(1) by (simp add: inv_def)
  have fin: "\<exists>ls s'. run ls t = Some s' \<and> mainpc s' = M_Returned"
    if "mainpc t = M_CloseMeta" for t
    by (rule exI[of _ "[L_CloseMeta None]"]) (use that in \<open>simp add: alive_def emit_def\<close>)
  have ack: "\<exists>ls s'. run ls t = Some s' \<and> mainpc s' = M_Returned"
    if "mainpc t = M_RecvClosed" "cleanup t = C_Ack" for t
    by (rule exI[of _ "[L_AckClosed, L_CloseMeta None]"])
       (use that in \<open>simp add: alive_def emit_def\<close>)
  have snd: "\<exists>ls s'. run ls t = Some s' \<and> mainpc s' = M_Returned"
    if "mainpc t = M_SendShutdown" "cleanup t = C_Select" for t
    by (rule exI[of _ "[L_SendShutdown, L_AckClosed, L_CloseMeta None]"])
       (use that in \<open>simp add: alive_def emit_def\<close>)
  show ?thesis
  proof (cases "mainpc s")
    case M_SendShutdown
    then have "cleanup s = C_Select \<or> in_sweep (cleanup s)"
      using p by (simp add: pc_inv_def)
    then obtain ls s1 where r: "run ls s = Some s1" "mainpc s1 = mainpc s" "cleanup s1 = C_Select"
      using sweep_can_return[OF assms(1)] by blast
    obtain ls' s' where r': "run ls' s1 = Some s'" "mainpc s' = M_Returned"
      using snd[of s1] r M_SendShutdown by auto
    have "run (ls @ ls') s = Some s'" using r(1) r'(1) by (simp add: run_append)
    then show ?thesis using r'(2) by blast
  next
    case M_RecvClosed
    then have "cleanup s = C_Ack" using p by (simp add: pc_inv_def)
    then show ?thesis using ack M_RecvClosed by blast
  next
    case M_CloseMeta
    then show ?thesis using fin by blast
  qed (use assms(3) in simp_all)
qed

section \<open>The claims\<close>

subsection \<open>The sweep\<close>

text \<open>
  Claim C1. A sweep with K candidates receives one result for each of them before it
  returns, and its outcome is the first non-nil error in the order the results are
  received, or no error when every teardown succeeded; an error received after the first
  non-nil one does not change the outcome.

  While the sweep is in its receive loop (lines 218-223) with \<open>rest\<close> iterations to go:
  a goroutine has been started for every candidate; the values received so far and the
  iterations to go add up to K; the live teardown goroutines are as many as the iterations
  to go; \<^verbatim>\<open>killCluster\<close> has been or is about to be called once for every candidate; the
  values received so far and the values that a goroutine holds and has not sent yet are,
  together, exactly what the calls of \<^verbatim>\<open>killCluster\<close> of this sweep returned;
  \<^verbatim>\<open>killError\<close> is the first non-nil value received so far, it stays what it is whatever is
  received later, and it is nil exactly when everything received is nil.

  When the sweep returns, no iteration is left, no teardown goroutine is alive,
  \<^verbatim>\<open>killCluster\<close> has been called once for every candidate and has returned K values, the
  K values received are exactly these, and what the sweep returns is the first non-nil
  value received: no error when every call returned nil, and otherwise an error that one
  of the calls returned.
\<close>

theorem sweep_outcome_first_error:
  assumes "run ls init = Some s"
    and "cleanup s = C_Drain clustersToKill rest killError"
  shows "launched s = clustersToKill \<and>
         length (drained s) + length rest = length clustersToKill \<and>
         length (tasks s) = length rest \<and>
         mset (killed s) + mset (kill_pending (tasks s)) = mset clustersToKill \<and>
         mset (drained s) + mset (sent_values (tasks s)) = mset (returned s) \<and>
         length (returned s) = length (killed s) \<and>
         killError = first_error (drained s) \<and>
         (\<forall>e later. killError = Some e \<longrightarrow> first_error (drained s @ later) = Some e) \<and>
         (killError = None \<longleftrightarrow> (\<forall>r \<in> set (drained s). r = None)) \<and>
         (\<forall>s'. step L_SweepReturns s = Some s' \<longrightarrow>
            rest = [] \<and> tasks s = [] \<and> length (drained s) = length clustersToKill \<and>
            mset (killed s) = mset clustersToKill \<and>
            length (returned s) = length clustersToKill \<and>
            mset (drained s) = mset (returned s) \<and>
            events s' = events s @ [Ev_SweepReturned (first_error (drained s))] \<and>
            ((\<forall>r \<in> set (returned s). r = None) \<longrightarrow> first_error (drained s) = None) \<and>
            (\<forall>e. first_error (drained s) = Some e \<longrightarrow> Some e \<in> set (returned s)))"
proof -
  have i: "tasks_inv s" "results_inv s"
    using reachable_inv[OF assms(1)] by (simp_all add: inv_def)
  have a: "launched s = clustersToKill" "killError = first_error (drained s)"
    "length (drained s) + length rest = length clustersToKill"
    "length (tasks s) + length (drained s) = length (launched s)"
    "mset (killed s) + mset (kill_pending (tasks s)) = mset (launched s)"
    using i(1) assms(2) by (simp_all add: tasks_inv_def)
  have m: "mset (drained s) + mset (sent_values (tasks s)) = mset (returned s)"
    and n: "length (returned s) = length (killed s)"
    using i(2) by (simp_all add: results_inv_def)
  have b: "length (tasks s) = length rest"
    using a(1,3,4) by simp
  have c: "\<forall>e later. killError = Some e \<longrightarrow> first_error (drained s @ later) = Some e"
    using a(2) by (simp add: first_error_append)
  have d: "killError = None \<longleftrightarrow> (\<forall>r \<in> set (drained s). r = None)"
    using a(2) first_error_None[of "drained s"] by simp
  have e: "rest = [] \<and> tasks s = [] \<and> length (drained s) = length clustersToKill \<and>
           mset (killed s) = mset clustersToKill \<and>
           length (returned s) = length clustersToKill \<and>
           mset (drained s) = mset (returned s) \<and>
           events s' = events s @ [Ev_SweepReturned (first_error (drained s))] \<and>
           ((\<forall>r \<in> set (returned s). r = None) \<longrightarrow> first_error (drained s) = None) \<and>
           (\<forall>e. first_error (drained s) = Some e \<longrightarrow> Some e \<in> set (returned s))"
    if "step L_SweepReturns s = Some s'" for s'
  proof -
    have r: "rest = []" and ev: "events s' = events s @ [Ev_SweepReturned killError]"
      using that[unfolded step_SweepReturns] assms(2) by auto
    have t: "tasks s = []" using b r by simp
    have k: "mset (killed s) = mset clustersToKill" using a(1,5) t by simp
    have dr: "mset (drained s) = mset (returned s)" using m t by simp
    then have se: "set (drained s) = set (returned s)" by (rule mset_eq_setD)
    have l: "length (returned s) = length clustersToKill"
      using n k by (metis size_mset)
    have f: "Some e \<in> set (returned s)" if "first_error (drained s) = Some e" for e
      using first_error_mem[OF that] se by simp
    have g: "first_error (drained s) = None" if "\<forall>r \<in> set (returned s). r = None"
      using that se first_error_None[of "drained s"] by simp
    show ?thesis using r t ev a k dr l f g by simp
  qed
  show ?thesis using a(1,2,3,5) m n b c d e by blast
qed

text \<open>
  Two candidates, both teardowns fail, the result for \<open>''b''\<close> arrives first: the sweep
  returns the error of \<open>''b''\<close>.
\<close>

theorem sweep_outcome_first_error_witness:
  "\<exists>s s'. run (startup @ sweep_two @ drain_two) init = Some s \<and>
     cleanup s = C_Drain [''a'', ''b''] [] (Some ''b failed'') \<and>
     killed s = [''a'', ''b''] \<and> returned s = [Some ''a failed'', Some ''b failed''] \<and>
     drained s = [Some ''b failed'', Some ''a failed''] \<and> tasks s = [] \<and>
     step L_SweepReturns s = Some s' \<and>
     events s' = events s @ [Ev_SweepReturned (Some ''b failed'')]"
proof -
  obtain s where r: "run (startup @ sweep_two @ drain_two) init = Some s"
    and c: "cleanup s = C_Drain [''a'', ''b''] [] (Some ''b failed'')"
    and d: "drained s = [Some ''b failed'', Some ''a failed'']"
    and k: "killed s = [''a'', ''b'']" "returned s = [Some ''a failed'', Some ''b failed'']"
    by (simp add: eval_defs)
  obtain s' where st: "step L_SweepReturns s = Some s'"
    using r by (auto simp add: eval_defs)
  show ?thesis
    using sweep_outcome_first_error[OF r c] r c d k st by auto
qed

text \<open>
  Claim C3. The claim has the result channel made with a buffer as large as the number
  of candidates. Line 209 is \<^verbatim>\<open>make(chan error)\<close>: the channel has no buffer, whatever the
  number of candidates. With two candidates its capacity is 0.
\<close>

theorem unbuffered_signal_counterexample:
  "observe cleanup (startup @ sweep_two) = Some (C_Drain [''a'', ''b''] [''a'', ''b''] None) \<and>
   observe sig_cap (startup @ sweep_two) = Some 0"
  by (simp add: eval_defs)

text \<open>
  Claim C3, as the source has it. In every reachable state the channel \<^verbatim>\<open>signal\<close> has
  capacity 0 and holds no value: a teardown goroutine's send goes through only together
  with the sweep's receive (a step that ends a teardown goroutine is a receive of line
  219 that appends that goroutine's value to what the sweep has received). A sweep with
  zero candidates never blocks on it: no teardown goroutine exists, the sweep enters its
  receive loop at once, makes no receive and returns without an error.
\<close>

theorem unbuffered_signal:
  assumes "run ls init = Some s"
  shows "sig_cap s = 0 \<and> sig_buf s = [] \<and>
         (\<forall>rest. cleanup s = C_Spawn [] rest \<and> alive s \<longrightarrow>
            tasks s = [] \<and> step L_BeginDrain s = Some (s\<lparr> cleanup := C_Drain [] [] None \<rparr>)) \<and>
         (\<forall>rest killError. cleanup s = C_Drain [] rest killError \<and> alive s \<longrightarrow>
            tasks s = [] \<and>
            step L_SweepReturns s =
              Some (s\<lparr> cleanup := C_Select, events := events s @ [Ev_SweepReturned None] \<rparr>)) \<and>
         (\<forall>l s'. step l s = Some s' \<and> length (tasks s') < length (tasks s) \<longrightarrow>
            (\<exists>i clusterID r clustersToKill x rest killError.
               l = L_Recv i \<and> i < length (tasks s) \<and>
               tasks s ! i = T_Send (sig_id s) clusterID r \<and>
               cleanup s = C_Drain clustersToKill (x # rest) killError \<and>
               tasks s' = delete_at i (tasks s) \<and> drained s' = drained s @ [r]))"
proof -
  have i: "chan_inv s" "tasks_inv s"
    using reachable_inv[OF assms] by (simp_all add: inv_def)
  have a: "sig_cap s = 0 \<and> sig_buf s = [] \<and>
         (\<forall>rest. cleanup s = C_Spawn [] rest \<and> alive s \<longrightarrow>
            tasks s = [] \<and> step L_BeginDrain s = Some (s\<lparr> cleanup := C_Drain [] [] None \<rparr>)) \<and>
         (\<forall>rest killError. cleanup s = C_Drain [] rest killError \<and> alive s \<longrightarrow>
            tasks s = [] \<and>
            step L_SweepReturns s =
              Some (s\<lparr> cleanup := C_Select, events := events s @ [Ev_SweepReturned None] \<rparr>))"
    using i by (auto simp: chan_inv_def tasks_inv_def emit_def)
  have b: "\<exists>i clusterID r clustersToKill x rest killError.
               l = L_Recv i \<and> i < length (tasks s) \<and>
               tasks s ! i = T_Send (sig_id s) clusterID r \<and>
               cleanup s = C_Drain clustersToKill (x # rest) killError \<and>
               tasks s' = delete_at i (tasks s) \<and> drained s' = drained s @ [r]"
    if "step l s = Some s'" and "length (tasks s') < length (tasks s)" for l s'
    using that i(1) by (cases rule: step_cases) (simp_all add: chan_inv_def)
  show ?thesis using a b by blast
qed

theorem unbuffered_signal_witness:
  "\<exists>s. run (startup @ sweep_none) init = Some s \<and> cleanup s = C_Drain [] [] None \<and>
       alive s \<and> sig_cap s = 0 \<and>
       step L_SweepReturns s =
         Some (s\<lparr> cleanup := C_Select, events := events s @ [Ev_SweepReturned None] \<rparr>)"
proof -
  obtain s where r: "run (startup @ sweep_none) init = Some s"
    and c: "cleanup s = C_Drain [] [] None" and a: "alive s"
    by (simp add: eval_defs)
  show ?thesis
    using unbuffered_signal[OF r] r c a by blast
qed

text \<open>
  Claim C6. If listing the clusters fails at the start of a sweep, the sweep returns that
  error at once: nothing is partitioned, no teardown goroutine is started and
  \<^verbatim>\<open>killCluster\<close> is not called. The one step from line 197 leads back to the
  \<^verbatim>\<open>select\<close> of line 278; the only call made is the listing; what the sweep returns is the
  listing's error, which line 287 logs.
\<close>

theorem listing_failure_aborts_sweep:
  assumes "run ls init = Some s" and "step (L_ListAll (Inl err)) s = Some s'"
  shows "cleanup s' = C_Select \<and> tasks s' = [] \<and> snapshot s' = [] \<and> samples s' = [] \<and>
         launched s' = [] \<and> killed s' = [] \<and> drained s' = [] \<and>
         events s' = events s @ [Ev_ListAll (systemCtx s), Ev_SweepReturned (Some err)] \<and>
         logs s' = logs s @ [Log_CleaningUp, Log_FailedCleanup err]"
proof -
  have i: "tasks_inv s" "select_inv s"
    using reachable_inv[OF assms(1)] by (simp_all add: inv_def)
  have c: "cleanup s = C_ListAll"
    and s': "s' = s\<lparr> cleanup := C_Select,
                logs := logs s @ [Log_CleaningUp, Log_FailedCleanup err],
                events := events s @ [Ev_ListAll (systemCtx s), Ev_SweepReturned (Some err)] \<rparr>"
    using assms(2)[unfolded step_ListAll] by simp_all
  have "tasks s = []" "launched s = []" "killed s = []" "drained s = []"
    "snapshot s = []" "samples s = []"
    using i c by (auto simp: tasks_inv_def select_inv_def)
  then show ?thesis by (simp add: s')
qed

theorem listing_failure_aborts_sweep_witness:
  "\<exists>s s'. run (startup @ [L_TimerFires]) init = Some s \<and>
     step (L_ListAll (Inl ''meta store unavailable'')) s = Some s' \<and>
     cleanup s' = C_Select \<and> tasks s' = [] \<and> launched s' = [] \<and> killed s' = [] \<and>
     events s' = events s @ [Ev_ListAll (Some system_context),
                             Ev_SweepReturned (Some ''meta store unavailable'')]"
proof -
  obtain s where r: "run (startup @ [L_TimerFires]) init = Some s"
    and c: "systemCtx s = Some system_context"
    by (simp add: eval_defs system_context_def)
  obtain s' where st: "step (L_ListAll (Inl ''meta store unavailable'')) s = Some s'"
    using r by (auto simp add: eval_defs)
  show ?thesis
    using listing_failure_aborts_sweep[OF r st] r st c by auto
qed

text \<open>
  Claim C2. The claim has one current-time sample for the whole sweep, and selects
  exactly the clusters whose \<^verbatim>\<open>Timeout\<close> is strictly before it. Line 204 calls
  \<^verbatim>\<open>time.Now()\<close> inside the loop, once for every cluster. In a sweep over two clusters
  whose \<^verbatim>\<open>Timeout\<close> is 10, with the clock at 10 for the first and at 11 for the second,
  two samples are taken and only \<open>''b''\<close> is selected: its \<^verbatim>\<open>Timeout\<close> is not before the
  sample taken when the sweep began, and no one instant selects \<open>''b''\<close> without
  \<open>''a''\<close> (the first sample selects neither, the second both).
\<close>

theorem selection_by_own_sample_counterexample:
  "observe snapshot (startup @ sweep_clock_moves) = Some [cluster_a, cluster_b] \<and>
   observe samples (startup @ sweep_clock_moves) = Some [10, 11] \<and>
   observe cleanup (startup @ sweep_clock_moves) = Some (C_Spawn [''b''] [''b'']) \<and>
   Timeout cluster_b = 10 \<and>
   expired_at 10 [cluster_a, cluster_b] = [] \<and>
   expired_at 11 [cluster_a, cluster_b] = [''a'', ''b'']"
  by (simp add: eval_defs expired_at_def)

text \<open>
  Claim C2, as the source has it. In every sweep, the loop of lines 203-207 takes one
  time sample for every cluster it visits, and the clusters selected for teardown are
  exactly those whose \<^verbatim>\<open>Timeout\<close> is strictly before the sample taken for them. A teardown
  goroutine is started for these ids and no other, \<^verbatim>\<open>killCluster\<close> is called only for ids
  a goroutine was started for, and when the sweep returns it has been called once for
  each selected id: a cluster whose \<^verbatim>\<open>Timeout\<close> is at or after its own sample is not torn
  down in that sweep (unless it shares its id with a selected one). When all samples of
  the sweep are one instant, the selected clusters are those whose \<^verbatim>\<open>Timeout\<close> is strictly
  before that instant.
\<close>

theorem selection_by_own_sample:
  assumes "run ls init = Some s"
  shows "length (samples s) \<le> length (snapshot s) \<and>
         (\<forall>clusters clustersToKill.
            cleanup s = C_Partition clusters clustersToKill \<longrightarrow>
              clusters = drop (length (samples s)) (snapshot s) \<and>
              clustersToKill = selected (snapshot s) (samples s) \<and> launched s = []) \<and>
         (\<forall>clustersToKill rest.
            cleanup s = C_Spawn clustersToKill rest \<longrightarrow>
              length (samples s) = length (snapshot s) \<and>
              clustersToKill = selected (snapshot s) (samples s) \<and>
              clustersToKill = launched s @ rest) \<and>
         (\<forall>clustersToKill rest killError.
            cleanup s = C_Drain clustersToKill rest killError \<longrightarrow>
              length (samples s) = length (snapshot s) \<and>
              clustersToKill = selected (snapshot s) (samples s) \<and>
              launched s = clustersToKill) \<and>
         mset (killed s) \<subseteq># mset (launched s) \<and>
         set (launched s) \<subseteq> set (selected (snapshot s) (samples s)) \<and>
         (\<forall>s'. step L_SweepReturns s = Some s' \<longrightarrow>
            launched s = selected (snapshot s) (samples s) \<and>
            mset (killed s) = mset (selected (snapshot s) (samples s))) \<and>
         (\<forall>t. length (samples s) = length (snapshot s) \<and> set (samples s) \<subseteq> {t} \<longrightarrow>
            selected (snapshot s) (samples s) = expired_at t (snapshot s))"
proof -
  have i: "tasks_inv s" "select_inv s"
    using reachable_inv[OF assms] by (simp_all add: inv_def)
  have a: "length (samples s) \<le> length (snapshot s)"
    using i(2) by (simp add: select_inv_def)
  have b: "clusters = drop (length (samples s)) (snapshot s) \<and>
           clustersToKill = selected (snapshot s) (samples s) \<and> launched s = []"
    if "cleanup s = C_Partition clusters clustersToKill" for clusters clustersToKill
    using i that by (simp add: select_inv_def tasks_inv_def)
  have c: "length (samples s) = length (snapshot s) \<and>
           clustersToKill = selected (snapshot s) (samples s) \<and>
           clustersToKill = launched s @ rest"
    if "cleanup s = C_Spawn clustersToKill rest" for clustersToKill rest
    using i that by (simp add: select_inv_def tasks_inv_def)
  have d: "length (samples s) = length (snapshot s) \<and>
           clustersToKill = selected (snapshot s) (samples s) \<and>
           launched s = clustersToKill"
    if "cleanup s = C_Drain clustersToKill rest killError" for clustersToKill rest killError
    using i that by (simp add: select_inv_def tasks_inv_def)
  have m: "mset (killed s) + mset (kill_pending (tasks s)) = mset (launched s)"
    using i(1) by (simp add: tasks_inv_def)
  have e: "mset (killed s) \<subseteq># mset (launched s)"
    using m by (metis mset_subset_eq_add_left)
  have f: "set (launched s) \<subseteq> set (selected (snapshot s) (samples s))"
  proof (cases "cleanup s")
    case (C_Partition clusters clustersToKill)
    then show ?thesis using b by simp
  next
    case (C_Spawn clustersToKill rest)
    then show ?thesis using c[OF C_Spawn] by (metis set_append sup_ge1)
  next
    case (C_Drain clustersToKill rest killError)
    then show ?thesis using d[OF C_Drain] by simp
  next
    case C_ListAll
    then show ?thesis using i(1) by (simp add: tasks_inv_def)
  qed (use i(2) in \<open>simp_all add: select_inv_def\<close>)
  have g: "launched s = selected (snapshot s) (samples s) \<and>
           mset (killed s) = mset (selected (snapshot s) (samples s))"
    if st: "step L_SweepReturns s = Some s'" for s'
  proof -
    obtain clustersToKill killError where pc: "cleanup s = C_Drain clustersToKill [] killError"
      using st[unfolded step_SweepReturns] by blast
    have "tasks s = []"
      using i(1) pc by (auto simp add: tasks_inv_def)
    then show ?thesis using d[OF pc] m by simp
  qed
  have h: "selected (snapshot s) (samples s) = expired_at t (snapshot s)"
    if "length (samples s) = length (snapshot s) \<and> set (samples s) \<subseteq> {t}" for t
    using that selected_single_sample by blast
  show ?thesis using a b c d e f g h by blast
qed

text \<open>
  A sweep with the clock at 20 throughout: the two clusters whose \<^verbatim>\<open>Timeout\<close> is 10 are
  selected, the one that lives until 600 is not.
\<close>

theorem selection_by_own_sample_witness:
  "\<exists>s. run (startup @ sweep_two) init = Some s \<and>
       cleanup s = C_Drain [''a'', ''b''] [''a'', ''b''] None \<and>
       snapshot s = [cluster_a, cluster_b, cluster_c] \<and> samples s = [20, 20, 20] \<and>
       selected (snapshot s) (samples s) = [''a'', ''b''] \<and>
       expired_at 20 (snapshot s) = [''a'', ''b'']"
proof -
  obtain s where r: "run (startup @ sweep_two) init = Some s"
    and c: "cleanup s = C_Drain [''a'', ''b''] [''a'', ''b''] None"
    and d: "snapshot s = [cluster_a, cluster_b, cluster_c]" "samples s = [20, 20, 20]"
    by (simp add: eval_defs)
  have "selected (snapshot s) (samples s) = expired_at 20 (snapshot s)"
    using selection_by_own_sample[OF r] d by simp
  moreover have "[''a'', ''b''] = selected (snapshot s) (samples s)"
    using selection_by_own_sample[OF r] c by blast
  ultimately show ?thesis using r c d by simp
qed

text \<open>
  Claim C5. Two sweeps are never concurrent with each other: the cleanup routine is back
  at its timer-or-shutdown wait only after the sweep's receive loop is over, and the
  shutdown request is taken only there, so when the routine acknowledges no sweep is in
  progress.

  Whenever the cleanup routine is outside \<^verbatim>\<open>cleanupClusters\<close> (at the \<^verbatim>\<open>select\<close> of line
  278, at line 280, or gone), no teardown goroutine is alive and every goroutine the last
  sweep started has had its value received. The teardown goroutines alive at any moment
  all send on the channel of the one current sweep. While a sweep is in progress
  neither the send on \<^verbatim>\<open>shutdownSig\<close> nor the acknowledgement can happen; the shutdown
  request is taken only at the \<^verbatim>\<open>select\<close>, the acknowledgement only after it, a new sweep
  starts only from the \<^verbatim>\<open>select\<close>, each time with no teardown goroutine alive. The routine
  reaches the \<^verbatim>\<open>select\<close> only when it starts, when a sweep's receive loop has no
  iteration left, or when the listing failed. Once it is gone it stays gone.
\<close>

theorem sweeps_never_overlap:
  assumes "run ls init = Some s"
  shows "(\<not> in_sweep (cleanup s) \<longrightarrow>
            tasks s = [] \<and> length (drained s) = length (launched s) \<and>
            mset (killed s) = mset (launched s)) \<and>
         (\<forall>t \<in> set (tasks s). task_chan t = sig_id s) \<and>
         (in_sweep (cleanup s) \<longrightarrow> step L_SendShutdown s = None \<and> step L_AckClosed s = None) \<and>
         (\<forall>s'. step L_SendShutdown s = Some s' \<longrightarrow>
            cleanup s = C_Select \<and> tasks s = [] \<and> cleanup s' = C_Ack \<and> tasks s' = []) \<and>
         (\<forall>s'. step L_AckClosed s = Some s' \<longrightarrow>
            cleanup s = C_Ack \<and> tasks s = [] \<and> cleanup s' = C_Exited \<and> tasks s' = []) \<and>
         (\<forall>s'. step L_TimerFires s = Some s' \<longrightarrow>
            cleanup s = C_Select \<and> tasks s = [] \<and> cleanup s' = C_ListAll) \<and>
         (\<forall>l s'. step l s = Some s' \<and> cleanup s' = C_Select \<and> cleanup s \<noteq> C_Select \<longrightarrow>
            tasks s' = [] \<and> length (drained s') = length (launched s') \<and>
            (l = L_GoCleanup \<and> cleanup s = C_NotStarted \<or>
             l = L_SweepReturns \<and> (\<exists>clustersToKill killError.
                 cleanup s = C_Drain clustersToKill [] killError) \<or>
             (\<exists>err. l = L_ListAll (Inl err)) \<and> cleanup s = C_ListAll)) \<and>
         (cleanup s = C_Exited \<longrightarrow> (\<forall>l s'. step l s = Some s' \<longrightarrow> cleanup s' = C_Exited))"
proof -
  have i: "tasks_inv s" "pc_inv s"
    using reachable_inv[OF assms] by (simp_all add: inv_def)
  have a: "tasks s = [] \<and> length (drained s) = length (launched s) \<and>
           mset (killed s) = mset (launched s)" if "\<not> in_sweep (cleanup s)"
    using i(1) that by (auto simp: tasks_inv_def)
  have b: "\<forall>t \<in> set (tasks s). task_chan t = sig_id s"
    using i(1) by (simp add: tasks_inv_def)
  have c: "step L_SendShutdown s = None \<and> step L_AckClosed s = None" if "in_sweep (cleanup s)"
    using that by auto
  have d: "cleanup s = C_Select \<and> tasks s = [] \<and> cleanup s' = C_Ack \<and> tasks s' = []"
    if st: "step L_SendShutdown s = Some s'" for s'
    using st[unfolded step_SendShutdown] a by auto
  have e: "cleanup s = C_Ack \<and> tasks s = [] \<and> cleanup s' = C_Exited \<and> tasks s' = []"
    if st: "step L_AckClosed s = Some s'" for s'
    using st[unfolded step_AckClosed] a by auto
  have f: "cleanup s = C_Select \<and> tasks s = [] \<and> cleanup s' = C_ListAll"
    if st: "step L_TimerFires s = Some s'" for s'
    using st[unfolded step_TimerFires] a by auto
  have g: "tasks s' = [] \<and> length (drained s') = length (launched s') \<and>
            (l = L_GoCleanup \<and> cleanup s = C_NotStarted \<or>
             l = L_SweepReturns \<and> (\<exists>clustersToKill killError.
                 cleanup s = C_Drain clustersToKill [] killError) \<or>
             (\<exists>err. l = L_ListAll (Inl err)) \<and> cleanup s = C_ListAll)"
    if st: "step l s = Some s'" and sel: "cleanup s' = C_Select" and ns: "cleanup s \<noteq> C_Select"
    for l s'
  proof -
    have i': "tasks_inv s'"
      using reachable_inv[of "ls @ [l]" s'] assms st by (simp add: run_snoc inv_def)
    have t: "tasks s' = [] \<and> length (drained s') = length (launched s')"
      using i' sel by (auto simp: tasks_inv_def)
    have "l = L_GoCleanup \<and> cleanup s = C_NotStarted \<or>
             l = L_SweepReturns \<and> (\<exists>clustersToKill killError.
                 cleanup s = C_Drain clustersToKill [] killError) \<or>
             (\<exists>err. l = L_ListAll (Inl err)) \<and> cleanup s = C_ListAll"
      using st sel ns i(2)
      by (cases rule: step_cases) (simp_all add: pc_inv_def alive_def)
    then show ?thesis using t by blast
  qed
  have h: "cleanup s' = C_Exited" if "cleanup s = C_Exited" and st: "step l s = Some s'" for l s'
    using st that(1) i(2) by (cases rule: step_cases) (simp_all add: pc_inv_def alive_def)
  show ?thesis using a b c d e f g h by blast
qed

text \<open>
  The main goroutine waits at line 356 while a sweep with two teardowns is in its
  receive loop: the shutdown request is not taken until the sweep has returned.
\<close>

theorem sweeps_never_overlap_witness:
  "\<exists>s s' s''. run (startup @ [L_ListenFails ''address in use''] @ sweep_two @ drain_two) init
         = Some s \<and>
       in_sweep (cleanup s) \<and> step L_SendShutdown s = None \<and>
       step L_SweepReturns s = Some s' \<and> cleanup s' = C_Select \<and> tasks s' = [] \<and>
       step L_SendShutdown s' = Some s'' \<and> cleanup s'' = C_Ack"
proof -
  obtain s where r: "run (startup @ [L_ListenFails ''address in use''] @ sweep_two @ drain_two)
      init = Some s" and c: "in_sweep (cleanup s)" "cleanup s \<noteq> C_Select"
    by (simp add: eval_defs)
  obtain s' where st: "step L_SweepReturns s = Some s'" and c': "cleanup s' = C_Select"
    using r by (auto simp add: eval_defs)
  have r': "run ((startup @ [L_ListenFails ''address in use''] @ sweep_two @ drain_two)
      @ [L_SweepReturns]) init = Some s'"
    by (simp only: run_snoc r option.case st)
  obtain s'' where st': "step L_SendShutdown s' = Some s''"
    using r st by (auto simp add: eval_defs)
  have a: "step L_SendShutdown s = None"
    using sweeps_never_overlap[OF r] c(1) by blast
  have b: "tasks s' = []"
    using sweeps_never_overlap[OF r'] c' by simp
  have d: "cleanup s'' = C_Ack"
    using sweeps_never_overlap[OF r'] st' by blast
  show ?thesis
    using r c(1) a st c' b st' d by blast
qed

text \<open>
  Claim C8. A sweep over an empty cluster list, or over a list in which no cluster's
  \<^verbatim>\<open>Timeout\<close> has passed, starts no teardown goroutine and returns without an error.

  First, from the inputs: when the sweep is about to list, the listing returns
  \<open>clusters\<close> and none of them has its \<^verbatim>\<open>Timeout\<close> before the clock (the empty list
  included), the sweep runs through to its return: it makes the one listing call, starts
  no goroutine, calls \<^verbatim>\<open>killCluster\<close> for nobody and returns nil, which line 286 does not
  log. Second, under every interleaving and with the clock moving: if no cluster of the
  listing had its \<^verbatim>\<open>Timeout\<close> before the sample taken for it, then no goroutine has been
  started, \<^verbatim>\<open>killCluster\<close> has not been called, \<^verbatim>\<open>clustersToKill\<close> is empty, the receive loop
  has no iteration, and the sweep's return is nil and logs nothing.
\<close>

theorem nothing_expired_sweep:
  assumes "run ls init = Some s"
  shows "(\<forall>clusters.
            cleanup s = C_ListAll \<and> (\<forall>c \<in> set clusters. \<not> Timeout c < now s) \<longrightarrow>
            (\<exists>s'. run (L_ListAll (Inr clusters) # replicate (length clusters) L_CheckTimeout @
                        [L_MakeSignal, L_BeginDrain, L_SweepReturns]) s = Some s' \<and>
                  cleanup s' = C_Select \<and> snapshot s' = clusters \<and>
                  launched s' = [] \<and> tasks s' = [] \<and> killed s' = [] \<and>
                  events s' = events s @ [Ev_ListAll (systemCtx s), Ev_SweepReturned None] \<and>
                  logs s' = logs s @ [Log_CleaningUp])) \<and>
         (list_all2 (\<lambda>c t. \<not> Timeout c < t) (snapshot s) (samples s) \<longrightarrow>
            launched s = [] \<and> tasks s = [] \<and> killed s = [] \<and> returned s = [] \<and>
            drained s = [] \<and>
            (\<forall>clustersToKill rest. cleanup s = C_Spawn clustersToKill rest \<longrightarrow>
               clustersToKill = [] \<and> rest = []) \<and>
            (\<forall>clustersToKill rest killError.
               cleanup s = C_Drain clustersToKill rest killError \<longrightarrow>
               clustersToKill = [] \<and> rest = [] \<and> killError = None) \<and>
            (\<forall>s'. step L_SweepReturns s = Some s' \<longrightarrow>
               events s' = events s @ [Ev_SweepReturned None] \<and> logs s' = logs s \<and>
               cleanup s' = C_Select \<and> tasks s' = []))"
proof -
  have i: "inv s" by (rule reachable_inv[OF assms])
  then have j: "tasks_inv s" "select_inv s" by (simp_all add: inv_def)
  have a: "\<exists>s'. run (L_ListAll (Inr clusters) # replicate (length clusters) L_CheckTimeout @
                        [L_MakeSignal, L_BeginDrain, L_SweepReturns]) s = Some s' \<and>
                  cleanup s' = C_Select \<and> snapshot s' = clusters \<and>
                  launched s' = [] \<and> tasks s' = [] \<and> killed s' = [] \<and>
                  events s' = events s @ [Ev_ListAll (systemCtx s), Ev_SweepReturned None] \<and>
                  logs s' = logs s @ [Log_CleaningUp]"
    if pc: "cleanup s = C_ListAll" and al: "\<forall>c \<in> set clusters. \<not> Timeout c < now s"
    for clusters
  proof -
    have alv: "alive s" using alive_in_sweep[OF i] pc by simp
    have e: "launched s = []" "tasks s = []" "killed s = []"
      using j(1) pc by (auto simp: tasks_inv_def)
    let ?s1 = "s\<lparr> cleanup := C_Partition clusters [], snapshot := clusters,
                   logs := logs s @ [Log_CleaningUp],
                   events := events s @ [Ev_ListAll (systemCtx s)] \<rparr>"
    let ?s2 = "?s1\<lparr> cleanup := C_Partition [] [],
                   samples := samples ?s1 @ replicate (length clusters) (now ?s1) \<rparr>"
    have s1: "step (L_ListAll (Inr clusters)) s = Some ?s1"
      using alv pc by (simp add: emit_def log_printf_def)
    have s2: "run (replicate (length clusters) L_CheckTimeout) ?s1 = Some ?s2"
      by (rule partition_nothing_expired) (use alv al in \<open>simp_all add: alive_def\<close>)
    obtain s' where s3: "run [L_MakeSignal, L_BeginDrain, L_SweepReturns] ?s2 = Some s'"
      and r: "cleanup s' = C_Select" "snapshot s' = clusters" "launched s' = launched s"
        "tasks s' = tasks s" "killed s' = killed s"
        "events s' = events s @ [Ev_ListAll (systemCtx s), Ev_SweepReturned None]"
        "logs s' = logs s @ [Log_CleaningUp]"
      using alv by (simp add: alive_def emit_def)
    have "run (L_ListAll (Inr clusters) # replicate (length clusters) L_CheckTimeout @
                        [L_MakeSignal, L_BeginDrain, L_SweepReturns]) s = Some s'"
      using s1 s2 s3 by (simp only: run.simps option.case run_append)
    then show ?thesis using r e by auto
  qed
  have b: "launched s = [] \<and> tasks s = [] \<and> killed s = [] \<and> returned s = [] \<and>
            drained s = [] \<and>
            (\<forall>clustersToKill rest. cleanup s = C_Spawn clustersToKill rest \<longrightarrow>
               clustersToKill = [] \<and> rest = []) \<and>
            (\<forall>clustersToKill rest killError.
               cleanup s = C_Drain clustersToKill rest killError \<longrightarrow>
               clustersToKill = [] \<and> rest = [] \<and> killError = None) \<and>
            (\<forall>s'. step L_SweepReturns s = Some s' \<longrightarrow>
               events s' = events s @ [Ev_SweepReturned None] \<and> logs s' = logs s \<and>
               cleanup s' = C_Select \<and> tasks s' = [])"
    if h: "list_all2 (\<lambda>c t. \<not> Timeout c < t) (snapshot s) (samples s)"
  proof -
    have sel: "selected (snapshot s) (samples s) = []"
      using h by (rule selected_none)
    then have l: "launched s = []"
      using launched_selected[OF i] by simp
    note n = nothing_launched[OF i l]
    have c: "clustersToKill = [] \<and> rest = []"
      if "cleanup s = C_Spawn clustersToKill rest" for clustersToKill rest
      using j that sel by (simp add: tasks_inv_def select_inv_def)
    have d: "clustersToKill = [] \<and> rest = [] \<and> killError = None"
      if "cleanup s = C_Drain clustersToKill rest killError" for clustersToKill rest killError
      using j that sel n by (simp add: tasks_inv_def select_inv_def)
    have e: "events s' = events s @ [Ev_SweepReturned None] \<and> logs s' = logs s \<and>
               cleanup s' = C_Select \<and> tasks s' = []"
      if st: "step L_SweepReturns s = Some s'" for s'
      using st[unfolded step_SweepReturns] d n by auto
    show ?thesis using l n c d e by blast
  qed
  show ?thesis using a b by blast
qed

text \<open>A sweep at the instant 5 over three clusters that live until 10, 10 and 600.\<close>

theorem nothing_expired_sweep_witness:
  "\<exists>s s'. run (startup @ [L_Tick 5, L_TimerFires]) init = Some s \<and>
     cleanup s = C_ListAll \<and> now s = 5 \<and>
     run (L_ListAll (Inr [cluster_a, cluster_b, cluster_c]) # replicate 3 L_CheckTimeout @
            [L_MakeSignal, L_BeginDrain, L_SweepReturns]) s = Some s' \<and>
     cleanup s' = C_Select \<and> launched s' = [] \<and> killed s' = [] \<and>
     events s' = events s @ [Ev_ListAll (systemCtx s), Ev_SweepReturned None]"
proof -
  obtain s where r: "run (startup @ [L_Tick 5, L_TimerFires]) init = Some s"
    and c: "cleanup s = C_ListAll" "now s = 5"
    by (simp add: eval_defs)
  have h: "\<forall>c \<in> set [cluster_a, cluster_b, cluster_c]. \<not> Timeout c < now s"
    using c by (simp add: cluster_a_def cluster_b_def cluster_c_def)
  have len: "length [cluster_a, cluster_b, cluster_c] = 3" by simp
  have "\<exists>s'. run (L_ListAll (Inr [cluster_a, cluster_b, cluster_c]) #
                  replicate (length [cluster_a, cluster_b, cluster_c]) L_CheckTimeout @
                  [L_MakeSignal, L_BeginDrain, L_SweepReturns]) s = Some s' \<and>
             cleanup s' = C_Select \<and> snapshot s' = [cluster_a, cluster_b, cluster_c] \<and>
             launched s' = [] \<and> tasks s' = [] \<and> killed s' = [] \<and>
             events s' = events s @ [Ev_ListAll (systemCtx s), Ev_SweepReturned None] \<and>
             logs s' = logs s @ [Log_CleaningUp]"
    using nothing_expired_sweep[OF r] c(1) h by blast
  then obtain s' where
    "run (L_ListAll (Inr [cluster_a, cluster_b, cluster_c]) # replicate 3 L_CheckTimeout @
            [L_MakeSignal, L_BeginDrain, L_SweepReturns]) s = Some s'"
    "cleanup s' = C_Select" "launched s' = []" "killed s' = []"
    "events s' = events s @ [Ev_ListAll (systemCtx s), Ev_SweepReturned None]"
    unfolding len by blast
  then show ?thesis using r c by blast
qed

text \<open>
  Claim C9. The cleanup routine makes every listing and every teardown under one system
  context, the value of \<^verbatim>\<open>NewContext(context.Background(), "system", true)\<close> (identity
  \<^verbatim>\<open>"system"\<close>, \<^verbatim>\<open>isSystem\<close> true), which is built once, before the routine starts, and is
  never replaced.

  In every reachable state: every call of \<^verbatim>\<open>getAllClusters\<close> and of \<^verbatim>\<open>killCluster\<close> made so
  far was given that context; it has been built at most once; once the cleanup routine
  has started, and whenever a teardown goroutine is alive, \<^verbatim>\<open>systemCtx\<close> holds it and it has
  been built exactly once; the only step that changes \<^verbatim>\<open>systemCtx\<close> is line 270, taken
  while the variable is still nil and the routine has not started; and once set, the
  variable keeps its value in every continuation.
\<close>

theorem one_system_context:
  assumes "run ls init = Some s"
  shows "list_all (uses_context (NewContext Background ''system'' True)) (events s) \<and>
         length (filter is_NewContext (events s)) \<le> 1 \<and>
         (cleanup s \<noteq> C_NotStarted \<longrightarrow>
            systemCtx s = Some (NewContext Background ''system'' True) \<and>
            length (filter is_NewContext (events s)) = 1) \<and>
         (tasks s \<noteq> [] \<longrightarrow> systemCtx s = Some (NewContext Background ''system'' True)) \<and>
         (\<forall>l s'. step l s = Some s' \<and> systemCtx s' \<noteq> systemCtx s \<longrightarrow>
            l = L_NewContext \<and> systemCtx s = None \<and> cleanup s = C_NotStarted \<and>
            events s = []) \<and>
         (\<forall>ls' s'. systemCtx s \<noteq> None \<and> run ls' s = Some s' \<longrightarrow>
            systemCtx s' = systemCtx s)"
proof -
  have i: "inv s" by (rule reachable_inv[OF assms])
  then have j: "ctx_inv s" "pc_inv s" "tasks_inv s" by (simp_all add: inv_def)
  have a: "list_all (uses_context (NewContext Background ''system'' True)) (events s)"
    using j(1) by (simp add: ctx_inv_def system_context_def)
  have n: "length (filter is_NewContext (events s)) = (if systemCtx s = None then 0 else 1)"
    using j(1) by (simp add: ctx_inv_def)
  have b: "length (filter is_NewContext (events s)) \<le> 1"
    using n by simp
  have c: "systemCtx s = Some (NewContext Background ''system'' True) \<and>
           length (filter is_NewContext (events s)) = 1" if "cleanup s \<noteq> C_NotStarted"
    using j(1) that n by (simp add: ctx_inv_def system_context_def)
  have d: "systemCtx s = Some (NewContext Background ''system'' True)" if "tasks s \<noteq> []"
  proof -
    have "in_sweep (cleanup s)" using j(3) that by (auto simp: tasks_inv_def)
    then show ?thesis using c in_sweep_started by blast
  qed
  have e: "l = L_NewContext \<and> systemCtx s = None \<and> cleanup s = C_NotStarted \<and> events s = []"
    if st: "step l s = Some s'" and ne: "systemCtx s' \<noteq> systemCtx s" for l s'
    using st ne j(1,2) by (cases rule: step_cases) (simp_all add: ctx_inv_def pc_inv_def alive_def)
  have f: "systemCtx s' = systemCtx s" if "systemCtx s \<noteq> None" and "run ls' s = Some s'"
    for ls' s'
    using ctx_stable_run[OF i that] .
  show ?thesis using a b c d e f by blast
qed


text \<open>A run with a listing at startup and a sweep that tears two clusters down.\<close>

theorem one_system_context_witness:
  "\<exists>s. run (startup @ [L_ListenFails ''address in use''] @ sweep_two @ drain_two) init
         = Some s \<and>
       cleanup s \<noteq> C_NotStarted \<and>
       systemCtx s = Some (NewContext Background ''system'' True) \<and>
       events s =
         [Ev_NewContext (NewContext Background ''system'' True),
          Ev_ListAll (Some (NewContext Background ''system'' True)),
          Ev_ListenReturned,
          Ev_ListAll (Some (NewContext Background ''system'' True)),
          Ev_Kill (Some (NewContext Background ''system'' True)) ''a'',
          Ev_Kill (Some (NewContext Background ''system'' True)) ''b''] \<and>
       list_all (uses_context (NewContext Background ''system'' True)) (events s)"
proof -
  obtain s where r: "run (startup @ [L_ListenFails ''address in use''] @ sweep_two @ drain_two)
      init = Some s" and c: "cleanup s \<noteq> C_NotStarted"
    and e: "events s =
         [Ev_NewContext (NewContext Background ''system'' True),
          Ev_ListAll (Some (NewContext Background ''system'' True)),
          Ev_ListenReturned,
          Ev_ListAll (Some (NewContext Background ''system'' True)),
          Ev_Kill (Some (NewContext Background ''system'' True)) ''a'',
          Ev_Kill (Some (NewContext Background ''system'' True)) ''b'']"
    by (simp add: eval_defs)
  have a: "systemCtx s = Some (NewContext Background ''system'' True)"
    using one_system_context[OF r] c by blast
  have b: "list_all (uses_context (NewContext Background ''system'' True)) (events s)"
    using one_system_context[OF r] by blast
  show ?thesis using r c e a b by blast
qed

subsection \<open>Startup and shutdown\<close>

text \<open>
  Claim C4. The claim has, in every run of the shutdown, the HTTP listener closed first,
  then the acknowledgement of the cleanup routine received, then the Registry closed.
  The source starts the handshake whenever \<^verbatim>\<open>ListenAndServe\<close> returns (lines 351-356),
  also when nobody has closed the listener. In the run below the listener cannot start,
  the handshake begins, the process is interrupted, and the signal watcher calls
  \<^verbatim>\<open>restServer.Close()\<close> (line 346) after the acknowledgement has been received.
\<close>

theorem shutdown_order_counterexample:
  "observe events (startup @ listen_fails_late_interrupt) =
     Some [Ev_NewContext (NewContext Background ''system'' True),
           Ev_ListAll (Some (NewContext Background ''system'' True)),
           Ev_ListenReturned, Ev_ShutdownSent, Ev_AckReceived, Ev_ListenerClosed,
           Ev_RegistryClosed] \<and>
   observe mainpc (startup @ listen_fails_late_interrupt) = Some M_Returned"
  by (simp add: eval_defs)

text \<open>
  Claim C4, as the source has it. In every run, the steps of the shutdown that the main
  goroutine takes happen at most once each and in this order: \<^verbatim>\<open>ListenAndServe\<close> returns
  (because the signal watcher closed the server, because the listener could not start, or
  because accepting failed), the shutdown request is sent to the cleanup routine, its
  acknowledgement is received, the Registry is closed. Once \<^verbatim>\<open>ListenAndServe\<close> has returned
  the listener is not open. The Registry is never closed before the cleanup routine has
  acknowledged: the only step that closes it is line 362, it is taken after the three
  other steps, when the cleanup routine is gone and no teardown goroutine is alive.
\<close>

theorem shutdown_order:
  assumes "run ls init = Some s"
  shows "prefix (filter shutdown_event (events s)) shutdown_sequence \<and>
         (Ev_ListenReturned \<in> set (events s) \<longrightarrow> \<not> srv_listening s) \<and>
         (metaStore s = Meta_Closed \<longrightarrow>
            filter shutdown_event (events s) = shutdown_sequence \<and> cleanup s = C_Exited \<and>
            tasks s = []) \<and>
         (\<forall>s'. step L_SendShutdown s = Some s' \<longrightarrow>
            filter shutdown_event (events s) = [Ev_ListenReturned] \<and> \<not> srv_listening s \<and>
            events s' = events s @ [Ev_ShutdownSent]) \<and>
         (\<forall>s'. step L_AckClosed s = Some s' \<longrightarrow>
            filter shutdown_event (events s) = [Ev_ListenReturned, Ev_ShutdownSent] \<and>
            events s' = events s @ [Ev_AckReceived] \<and> cleanup s' = C_Exited) \<and>
         (\<forall>r s'. step (L_CloseMeta r) s = Some s' \<longrightarrow>
            filter shutdown_event (events s) =
              [Ev_ListenReturned, Ev_ShutdownSent, Ev_AckReceived] \<and>
            cleanup s = C_Exited \<and> tasks s = [] \<and> metaStore s = Meta_Open \<and>
            metaStore s' = Meta_Closed \<and> events s' = events s @ [Ev_RegistryClosed]) \<and>
         (\<forall>l s'. step l s = Some s' \<and> metaStore s' = Meta_Closed \<longrightarrow> (\<exists>r. l = L_CloseMeta r))"
proof -
  have i: "shutdown_inv s" "pc_inv s" "tasks_inv s"
    using reachable_inv[OF assms] by (simp_all add: inv_def)
  have p: "prefix (shutdown_progress pc) shutdown_sequence" for pc
    by (cases pc) (simp_all add: shutdown_sequence_def)
  have a: "prefix (filter shutdown_event (events s)) shutdown_sequence"
  proof (cases "alive_pc (mainpc s)")
    case True
    then show ?thesis using i(1) p by (simp add: shutdown_inv_def)
  next
    case False
    then show ?thesis using i(1) by (auto simp: shutdown_inv_def)
  qed
  have q: "Ev_ListenReturned \<notin> set (shutdown_progress pc)" if "serving pc" for pc
    using that by (cases pc) simp_all
  have b: "\<not> srv_listening s" if m: "Ev_ListenReturned \<in> set (events s)"
  proof
    assume l: "srv_listening s"
    then have sv: "serving (mainpc s)" using i(2) by (simp add: pc_inv_def)
    then have al: "alive_pc (mainpc s)" by (cases "mainpc s") simp_all
    then have "filter shutdown_event (events s) = shutdown_progress (mainpc s)"
      using i(1) by (simp add: shutdown_inv_def)
    moreover have "Ev_ListenReturned \<in> set (filter shutdown_event (events s))"
      using m by simp
    ultimately show False using q[OF sv] by simp
  qed
  have c: "filter shutdown_event (events s) = shutdown_sequence \<and> cleanup s = C_Exited \<and>
           tasks s = []" if m: "metaStore s = Meta_Closed"
  proof -
    have na: "\<not> alive_pc (mainpc s)"
      using i(1) m by (auto simp: shutdown_inv_def split: if_splits)
    then have f: "filter shutdown_event (events s) = shutdown_sequence \<and> cleanup s = C_Exited"
      using i(1) m by (auto simp: shutdown_inv_def)
    then have "tasks s = []" using i(3) by (simp add: tasks_inv_def)
    then show ?thesis using f by simp
  qed
  have d: "filter shutdown_event (events s) = [Ev_ListenReturned] \<and> \<not> srv_listening s \<and>
            events s' = events s @ [Ev_ShutdownSent]"
    if st: "step L_SendShutdown s = Some s'" for s'
    using st[unfolded step_SendShutdown] i(1,2) by (auto simp: shutdown_inv_def pc_inv_def alive_def)
  have e: "filter shutdown_event (events s) = [Ev_ListenReturned, Ev_ShutdownSent] \<and>
            events s' = events s @ [Ev_AckReceived] \<and> cleanup s' = C_Exited"
    if st: "step L_AckClosed s = Some s'" for s'
    using st[unfolded step_AckClosed] i(1) by (auto simp: shutdown_inv_def alive_def)
  have f: "filter shutdown_event (events s) =
              [Ev_ListenReturned, Ev_ShutdownSent, Ev_AckReceived] \<and>
            cleanup s = C_Exited \<and> tasks s = [] \<and> metaStore s = Meta_Open \<and>
            metaStore s' = Meta_Closed \<and> events s' = events s @ [Ev_RegistryClosed]"
    if st: "step (L_CloseMeta r) s = Some s'" for r s'
  proof -
    have pc: "alive s" "mainpc s = M_CloseMeta"
      and s': "metaStore s' = Meta_Closed" "events s' = events s @ [Ev_RegistryClosed]"
      using st[unfolded step_CloseMeta] by auto
    have c1: "cleanup s = C_Exited"
      using i(2) pc by (simp add: pc_inv_def alive_def)
    then have "tasks s = []" using i(3) by (simp add: tasks_inv_def)
    then show ?thesis
      using i(1) pc s' c1 by (simp add: shutdown_inv_def alive_def)
  qed
  have g: "\<exists>r. l = L_CloseMeta r" if st: "step l s = Some s'" and m: "metaStore s' = Meta_Closed"
    for l s'
  proof -
    have "alive s" using st step_not_alive by fastforce
    then have n: "metaStore s \<noteq> Meta_Closed"
      using i(1) by (auto simp: shutdown_inv_def alive_def split: if_splits)
    show ?thesis
      using st m n by (cases rule: step_cases) simp_all
  qed
  show ?thesis using a b c d e f g by blast
qed

text \<open>The normal end: an interrupt while the listener is accepting.\<close>

theorem shutdown_order_witness:
  "\<exists>s. run (startup @ interrupted_while_serving) init = Some s \<and>
       metaStore s = Meta_Closed \<and>
       events s =
         [Ev_NewContext (NewContext Background ''system'' True),
          Ev_ListAll (Some (NewContext Background ''system'' True)),
          Ev_ListenerOpened, Ev_ListenerClosed, Ev_ListenReturned, Ev_ShutdownSent,
          Ev_AckReceived, Ev_RegistryClosed] \<and>
       filter shutdown_event (events s) = shutdown_sequence \<and> cleanup s = C_Exited"
proof -
  obtain s where r: "run (startup @ interrupted_while_serving) init = Some s"
    and m: "metaStore s = Meta_Closed"
    and e: "events s =
         [Ev_NewContext (NewContext Background ''system'' True),
          Ev_ListAll (Some (NewContext Background ''system'' True)),
          Ev_ListenerOpened, Ev_ListenerClosed, Ev_ListenReturned, Ev_ShutdownSent,
          Ev_AckReceived, Ev_RegistryClosed]"
    by (simp add: eval_defs)
  have "filter shutdown_event (events s) = shutdown_sequence \<and> cleanup s = C_Exited"
    using shutdown_order[OF r] m by blast
  then show ?thesis using r m e by blast
qed




text \<open>
  Claim C10. If the HTTP listener fails to start (\<^verbatim>\<open>ListenAndServe\<close> returns an error at
  once), the daemon does not abort there: it still performs the whole shutdown handshake
  and logs the graceful shutdown, as on a termination signal.

  Whenever \<^verbatim>\<open>ListenAndServe\<close> returns in a reachable state, either at once with an error
  (the listener was never opened, and lines 350-353 log the address and the error) or
  after serving, the main goroutine is alive at the send of line 356 with the Registry
  open. From there, under every interleaving: while the daemon is alive the main goroutine
  is in the handshake of lines 356-368 and some continuation brings it to its return (every
  pending call of \<^verbatim>\<open>killCluster\<close> is taken to return); and when the daemon has ended, the
  main goroutine has returned, the steps of the handshake have all been taken, in order and
  once each, the cleanup routine has exited, the Registry is closed and the last line
  logged is the graceful shutdown.
\<close>

theorem listen_failure_still_shuts_down:
  assumes "run ls init = Some s"
      and "step l s = Some s1"
      and "l = L_ListenFails err \<or> l = L_ServeReturns err"
  shows "mainpc s1 = M_SendShutdown \<and> alive s1 \<and> \<not> srv_listening s1 \<and>
         metaStore s1 = Meta_Open \<and> events s1 = events s @ [Ev_ListenReturned] \<and>
         (l = L_ListenFails err \<longrightarrow>
            mainpc s = M_Listen \<and> Ev_ListenerOpened \<notin> set (events s1) \<and>
            logs s1 = logs s @ [Log_DaemonStarting '':19923'', Log_Error err]) \<and>
         (\<forall>ls' s2. run ls' s1 = Some s2 \<longrightarrow>
            (alive s2 \<longrightarrow>
               in_handshake (mainpc s2) \<and>
               (\<exists>ls'' s3. run ls'' s2 = Some s3 \<and> mainpc s3 = M_Returned)) \<and>
            (\<not> alive s2 \<longrightarrow>
               mainpc s2 = M_Returned \<and>
               filter shutdown_event (events s2) = shutdown_sequence \<and>
               cleanup s2 = C_Exited \<and> metaStore s2 = Meta_Closed \<and>
               last (logs s2) = Log_GracefulShutdown))"
proof -
  have i: "inv s" by (rule reachable_inv[OF assms(1)])
  have i1: "inv s1" by (rule inv_step[OF i assms(2)])
  have sh: "shutdown_inv s" "shutdown_inv s1" using i i1 by (simp_all add: inv_def)
  have a0: "mainpc s1 = M_SendShutdown \<and> alive s1 \<and>
            events s1 = events s @ [Ev_ListenReturned]"
    using assms(2,3) by (cases rule: step_cases) (auto simp: alive_def)
  have "\<not> srv_listening s1"
    using i1 a0 by (auto simp: inv_def pc_inv_def)
  then have a: "mainpc s1 = M_SendShutdown \<and> alive s1 \<and> \<not> srv_listening s1 \<and>
           events s1 = events s @ [Ev_ListenReturned]"
    using a0 by simp
  have m: "metaStore s1 = Meta_Open"
    using sh(2) a by (simp add: shutdown_inv_def alive_def)
  have b: "mainpc s = M_Listen \<and> Ev_ListenerOpened \<notin> set (events s1) \<and>
           logs s1 = logs s @ [Log_DaemonStarting '':19923'', Log_Error err]"
    if "l = L_ListenFails err"
  proof -
    have "mainpc s = M_Listen \<and>
          logs s1 = logs s @ [Log_DaemonStarting '':19923'', Log_Error err]"
      using assms(2) that by (cases rule: step_cases) simp_all
    then have p: "mainpc s = M_Listen"
      "logs s1 = logs s @ [Log_DaemonStarting '':19923'', Log_Error err]"
      by simp_all
    have "Ev_ListenerOpened \<notin> set (events s)"
      using sh(1) p(1) by (simp add: shutdown_inv_def)
    then show ?thesis using p a by simp
  qed
  have c: "(alive s2 \<longrightarrow>
               in_handshake (mainpc s2) \<and>
               (\<exists>ls'' s3. run ls'' s2 = Some s3 \<and> mainpc s3 = M_Returned)) \<and>
            (\<not> alive s2 \<longrightarrow>
               mainpc s2 = M_Returned \<and>
               filter shutdown_event (events s2) = shutdown_sequence \<and>
               cleanup s2 = C_Exited \<and> metaStore s2 = Meta_Closed \<and>
               last (logs s2) = Log_GracefulShutdown)"
    if r: "run ls' s1 = Some s2" for ls' s2
  proof -
    have i2: "inv s2" by (rule inv_run[OF i1 r])
    have sh2: "shutdown_inv s2" using i2 by (simp add: inv_def)
    have "Ev_ListenReturned \<in> set (events s1)" using a by simp
    then have "Ev_ListenReturned \<in> set (events s2)" using events_run[OF r] by blast
    then have e: "Ev_ListenReturned \<in> set (filter shutdown_event (events s2))" by simp
    show ?thesis
    proof (cases "alive s2")
      case True
      then have "filter shutdown_event (events s2) = shutdown_progress (mainpc s2)"
        using sh2 by (simp add: shutdown_inv_def alive_def)
      then have "in_handshake (mainpc s2)"
        using e True in_handshake_progress[of "mainpc s2"] by (simp add: alive_def)
      then show ?thesis using True handshake_can_finish[OF i2] by blast
    next
      case False
      have "filter shutdown_event (events s2) \<noteq> []"
        using e by (metis empty_iff empty_set)
      then show ?thesis using sh2 False by (auto simp: shutdown_inv_def alive_def)
    qed
  qed
  show ?thesis using a m b c by blast
qed

text \<open>
  The port is taken: \<^verbatim>\<open>ListenAndServe\<close> returns at once, and the run goes on to the end of
  \<^verbatim>\<open>startDaemon\<close>.
\<close>

theorem listen_failure_still_shuts_down_witness:
  "\<exists>s s1 s2. run startup init = Some s \<and>
     step (L_ListenFails ''listen tcp :19923: bind: address already in use'') s = Some s1 \<and>
     run [L_SendShutdown, L_AckClosed, L_CloseMeta None] s1 = Some s2 \<and>
     mainpc s1 = M_SendShutdown \<and> alive s1 \<and> \<not> alive s2 \<and> mainpc s2 = M_Returned \<and>
     filter shutdown_event (events s2) = shutdown_sequence \<and> metaStore s2 = Meta_Closed \<and>
     last (logs s2) = Log_GracefulShutdown"
proof -
  obtain s where r: "run startup init = Some s" and p: "mainpc s = M_Listen" "alive s"
    "cleanup s = C_Select" "\<not> srv_closed s"
    by (simp add: eval_defs)
  obtain s1 where st: "step (L_ListenFails ''listen tcp :19923: bind: address already in use'') s = Some s1"
    and c1: "cleanup s1 = C_Select" "mainpc s1 = M_SendShutdown"
    using p by (simp add: alive_def emit_def log_printf_def)
  obtain s2 where r2: "run [L_SendShutdown, L_AckClosed, L_CloseMeta None] s1 = Some s2"
    and d: "\<not> alive s2"
    using c1 by (simp add: alive_def emit_def log_printf_def)
  have "mainpc s1 = M_SendShutdown \<and> alive s1"
    using listen_failure_still_shuts_down[OF r st] by blast
  moreover have "mainpc s2 = M_Returned \<and>
     filter shutdown_event (events s2) = shutdown_sequence \<and> metaStore s2 = Meta_Closed \<and>
     last (logs s2) = Log_GracefulShutdown"
    using listen_failure_still_shuts_down[OF r st] r2 d by blast
  ultimately show ?thesis using r st r2 d by blast
qed

end
